theory Spec2Isabelle
  imports Complex_Main
begin

section \<open>The segment masking kernel of \<^verbatim>\<open>modules/fastspeech/bbc_mask.py\<close>\<close>

text \<open>
  A tensor of shape \<open>[B, L]\<close> is a list of \<open>B\<close> rows, each a list of \<open>L\<close> integers.
  Entries are the values of an int64 tensor, the dtype of \<^verbatim>\<open>mel2ph\<close>: integers
  between \<open>int64_min\<close> and \<open>int64_max\<close>, and the sum \<^verbatim>\<open>mel2ph + 1\<close> wraps around
  at \<open>int64_max\<close>. The only other sum over entries is the value of a slot of the batched
  table: it has one summand that is not 0 when the slot holds frames, and for a slot
  without frames it adds up the whole row, a value no statement below depends on. Frame
  positions are natural numbers, and the values of \<^verbatim>\<open>torch.rand\<close> are reals. The float tensors the
  batched strategy builds from boundary flags hold small whole numbers only, so they are
  integers here. The random generator is a fixed stream \<open>g\<close> of draws together with
  the position of the next draw; every call of \<^verbatim>\<open>torch.rand\<close> takes the next draws
  in order and advances the position. Both operations therefore take \<open>g\<close> and a
  position, and return the position they leave behind next to their result. A tensor
  without rows is \<open>[]\<close> whatever its second dimension is; the source treats all of
  these alike.
\<close>

type_synonym tensor2 = "int list list"

text \<open>The only failure of the kernel: torch raises on a reduction over no elements.\<close>

datatype error = EmptyReduction

subsection \<open>Tensor helpers\<close>

text \<open>\<^verbatim>\<open>mel2ph.shape\<close>: the number of rows and the length of a row.\<close>

definition batch_size :: "tensor2 \<Rightarrow> nat" where
  "batch_size mel2ph = length mel2ph"

definition seq_len :: "tensor2 \<Rightarrow> nat" where
  "seq_len mel2ph = (case mel2ph of [] \<Rightarrow> 0 | r # _ \<Rightarrow> length r)"

text \<open>A well-formed tensor: every row has the length of the shape.\<close>

definition rectangular :: "tensor2 \<Rightarrow> bool" where
  "rectangular mel2ph = list_all (\<lambda>r. length r = seq_len mel2ph) mel2ph"

definition non_negative :: "tensor2 \<Rightarrow> bool" where
  "non_negative mel2ph = list_all (list_all (\<lambda>v. 0 \<le> v)) mel2ph"

text \<open>The range of the dtype.\<close>

definition int64_max :: int where
  "int64_max = 9223372036854775807"

definition int64_min :: int where
  "int64_min = - 9223372036854775808"

text \<open>
  \<^verbatim>\<open>torch.where(mel2ph > 0, mel2ph + 1, mel2ph)\<close>. The sum is taken in int64: at
  the largest value it wraps around to the smallest. No entry of a tensor lies beyond
  \<open>int64_max\<close>.
\<close>

definition shift_value :: "int \<Rightarrow> int" where
  "shift_value v = (if v > 0 then (if v = int64_max then int64_min else v + 1) else v)"

definition shift_values :: "tensor2 \<Rightarrow> tensor2" where
  "shift_values mel2ph = map (map shift_value) mel2ph"

text \<open>\<^verbatim>\<open>F.pad(row, [1, 1], value=-1)\<close>\<close>

definition pad_row :: "int list \<Rightarrow> int list" where
  "pad_row r = (- 1) # r @ [- 1]"

text \<open>\<^verbatim>\<open>padded[:, 1:] != padded[:, :-1]\<close>, for one row.\<close>

definition diff_mask :: "int list \<Rightarrow> bool list" where
  "diff_mask seq = (let padded = pad_row seq in map2 (\<lambda>a b. a \<noteq> b) (tl padded) (butlast padded))"

text \<open>\<^verbatim>\<open>torch.where(mask)[0]\<close>: the positions that hold True, in increasing order.\<close>

definition where_true :: "bool list \<Rightarrow> nat list" where
  "where_true bs = filter (\<lambda>i. bs ! i) [0..<length bs]"

text \<open>
  \<^verbatim>\<open>row[lo:hi] = v\<close> with Python's slice bounds: a negative bound counts from the end,
  and both bounds are clipped to the row.
\<close>

definition slice_bound :: "nat \<Rightarrow> int \<Rightarrow> int" where
  "slice_bound n i = (if i < 0 then max 0 (i + int n) else min i (int n))"

definition slice_set :: "int list \<Rightarrow> int \<Rightarrow> int \<Rightarrow> int \<Rightarrow> int list" where
  "slice_set row lo hi v =
     (let a = slice_bound (length row) lo; b = slice_bound (length row) hi
      in map (\<lambda>i. if a \<le> int i \<and> int i < b then v else row ! i) [0..<length row])"

text \<open>\<^verbatim>\<open>torch.rand(n)\<close>: the next \<open>n\<close> draws of the stream, and the new position.\<close>

definition torch_rand :: "(nat \<Rightarrow> real) \<Rightarrow> nat \<Rightarrow> nat \<Rightarrow> real list \<times> nat" where
  "torch_rand g n pos = (map (\<lambda>k. g (pos + k)) [0..<n], pos + n)"

text \<open>
  \<^verbatim>\<open>torch.rand_like\<close> of a \<open>[B, S]\<close> tensor: \<open>B * S\<close> draws, filled in row by row.
\<close>

definition torch_rand_like :: "(nat \<Rightarrow> real) \<Rightarrow> nat \<Rightarrow> nat \<Rightarrow> nat \<Rightarrow> real list list \<times> nat" where
  "torch_rand_like g B S pos =
     (map (\<lambda>b. map (\<lambda>s. g (pos + b * S + s)) [0..<S]) [0..<B], pos + B * S)"

subsection \<open>Strategy A: \<^verbatim>\<open>fast_bbc_mask\<close>\<close>

text \<open>
  The segment table of one sample (lines 17 to 25): boundary positions, and from each
  pair of neighbours a start, an end, a length and the value at the start.
\<close>

definition boundaries_of :: "int list \<Rightarrow> nat list" where
  "boundaries_of seq = where_true (diff_mask seq)"

definition starts_of :: "int list \<Rightarrow> nat list" where
  "starts_of seq = butlast (boundaries_of seq)"

definition ends_of :: "int list \<Rightarrow> nat list" where
  "ends_of seq = tl (boundaries_of seq)"

definition lengths_of :: "int list \<Rightarrow> int list" where
  "lengths_of seq = map2 (\<lambda>e s. int e - int s) (ends_of seq) (starts_of seq)"

definition values_of :: "int list \<Rightarrow> int list" where
  "values_of seq = map (\<lambda>s. seq ! s) (starts_of seq)"

text \<open>\<^verbatim>\<open>valid_mask = (values != 0) & (lengths >= min_segment_length)\<close>\<close>

definition valid_mask :: "int \<Rightarrow> int list \<Rightarrow> bool list" where
  "valid_mask min_segment_length seq =
     map2 (\<lambda>v l. v \<noteq> 0 \<and> min_segment_length \<le> l) (values_of seq) (lengths_of seq)"

text \<open>The body of the inner loop (lines 37 to 40) for one selected segment.\<close>

definition write_mask :: "int \<Rightarrow> int list \<Rightarrow> nat \<Rightarrow> int list \<Rightarrow> int list" where
  "write_mask mask_length seq seg_idx result =
     (let start = starts_of seq ! seg_idx;
          end' = ends_of seq ! seg_idx;
          mask_start = max (int start) (int end' - mask_length)
      in slice_set result mask_start (int end') 1)"

text \<open>
  \<^verbatim>\<open>valid_indices[random_mask]\<close>: the valid indices whose draw is below \<open>mask_prob\<close>.
\<close>

definition selected_segments :: "real \<Rightarrow> nat list \<Rightarrow> real list \<Rightarrow> nat list" where
  "selected_segments mask_prob valid_indices draws =
     map fst (filter (\<lambda>(i, r). r < mask_prob) (zip valid_indices draws))"

text \<open>
  One pass of the loop over samples (lines 16 to 40): the row of the result and the
  position of the generator afterwards. The two \<^verbatim>\<open>continue\<close> statements leave the row
  as it is and draw nothing.
\<close>

definition mask_sample :: "int \<Rightarrow> int \<Rightarrow> real \<Rightarrow> (nat \<Rightarrow> real) \<Rightarrow> int list \<Rightarrow> nat \<Rightarrow> int list \<times> nat" where
  "mask_sample mask_length min_segment_length mask_prob g seq pos =
     (if length (boundaries_of seq) < 2 then (seq, pos)
      else if \<not> list_ex (\<lambda>b. b) (valid_mask min_segment_length seq) then (seq, pos)
      else
        let valid_indices = where_true (valid_mask min_segment_length seq);
            (draws, pos') = torch_rand g (length valid_indices) pos;
            selected = selected_segments mask_prob valid_indices draws
        in (fold (write_mask mask_length seq) selected seq, pos'))"

fun mask_samples :: "int \<Rightarrow> int \<Rightarrow> real \<Rightarrow> (nat \<Rightarrow> real) \<Rightarrow> tensor2 \<Rightarrow> nat \<Rightarrow> tensor2 \<times> nat" where
  "mask_samples mask_length min_segment_length mask_prob g [] pos = ([], pos)"
| "mask_samples mask_length min_segment_length mask_prob g (seq # rest) pos =
     (let (row, pos') = mask_sample mask_length min_segment_length mask_prob g seq pos;
          (rows, pos'') = mask_samples mask_length min_segment_length mask_prob g rest pos'
      in (row # rows, pos''))"

definition fast_bbc_mask :: "tensor2 \<Rightarrow> int \<Rightarrow> int \<Rightarrow> real \<Rightarrow> (nat \<Rightarrow> real) \<Rightarrow> nat \<Rightarrow> tensor2 \<times> nat" where
  "fast_bbc_mask mel2ph mask_length min_segment_length mask_prob g pos =
     mask_samples mask_length min_segment_length mask_prob g (shift_values mel2ph) pos"

subsection \<open>Strategy B: \<^verbatim>\<open>fast_fast_bbc_mask\<close>\<close>

text \<open>\<^verbatim>\<open>torch.cumsum\<close> along a row.\<close>

fun cumsum_from :: "int \<Rightarrow> int list \<Rightarrow> int list" where
  "cumsum_from acc [] = []"
| "cumsum_from acc (x # xs) = (acc + x) # cumsum_from (acc + x) xs"

definition cumsum :: "int list \<Rightarrow> int list" where
  "cumsum xs = cumsum_from 0 xs"

text \<open>Lines 56 to 59 for one row: the running segment id of every frame.\<close>

definition segment_ids_row :: "int list \<Rightarrow> int list" where
  "segment_ids_row seq =
     (let boundaries = map (\<lambda>b. if b then 1 else 0) (diff_mask seq)
      in butlast (map (\<lambda>c. c - 1) (cumsum boundaries)))"

text \<open>
  \<^verbatim>\<open>tensor.min(dim=2)\<close> for one row of the frame axis. The callers reach it with at
  least one frame only.
\<close>

definition min_dim :: "nat list \<Rightarrow> nat" where
  "min_dim xs = fold min (tl xs) (hd xs)"

text \<open>The three entries of the segment table for sample row \<open>seq\<close> and slot \<open>s\<close>.\<close>

definition segment_mask :: "int list \<Rightarrow> nat \<Rightarrow> bool list" where
  "segment_mask ids s = map (\<lambda>i. i = int s) ids"

definition pos_masked :: "int list \<Rightarrow> nat \<Rightarrow> nat \<Rightarrow> nat list" where
  "pos_masked ids s L = map2 (\<lambda>m p. if m then p else L) (segment_mask ids s) [0..<L]"

definition segment_start :: "int list \<Rightarrow> nat \<Rightarrow> nat \<Rightarrow> nat" where
  "segment_start ids s L = min_dim (pos_masked ids s L)"

definition segment_length :: "int list \<Rightarrow> nat \<Rightarrow> int" where
  "segment_length ids s = int (length (filter (\<lambda>m. m) (segment_mask ids s)))"

definition segment_value :: "int list \<Rightarrow> int list \<Rightarrow> nat \<Rightarrow> nat \<Rightarrow> int" where
  "segment_value seq ids s L =
     (let first_pos_mask = map (\<lambda>p. p = segment_start ids s L) (pos_masked ids s L);
          values_masked = map2 (\<lambda>f v. if f then v else 0) first_pos_mask seq
      in sum_list values_masked)"

text \<open>
  \<^verbatim>\<open>compute_segment_info_parallel\<close>: for every sample and every slot below
  \<open>max_segments\<close> the start, the length and the value. The minimum over the frame axis
  raises when there is no frame.
\<close>

definition compute_segment_info_parallel ::
  "tensor2 \<Rightarrow> int list list \<Rightarrow> nat \<Rightarrow> nat \<Rightarrow> error + (nat list list \<times> int list list \<times> int list list)" where
  "compute_segment_info_parallel masked_mel2ph segment_ids max_segments L =
     (if L = 0 then Inl EmptyReduction
      else Inr
        (map (\<lambda>ids. map (\<lambda>s. segment_start ids s L) [0..<max_segments]) segment_ids,
         map (\<lambda>ids. map (\<lambda>s. segment_length ids s) [0..<max_segments]) segment_ids,
         map (\<lambda>(seq, ids). map (\<lambda>s. segment_value seq ids s L) [0..<max_segments])
           (zip masked_mel2ph segment_ids)))"

text \<open>\<^verbatim>\<open>apply_masks_parallel\<close>, one row at a time.\<close>

definition mask_matrix :: "int \<Rightarrow> nat \<Rightarrow> int \<Rightarrow> bool \<Rightarrow> nat \<Rightarrow> bool" where
  "mask_matrix mask_length segment_start' segment_length' decision pos =
     (let segment_end = int segment_start' + segment_length';
          mask_start = max (segment_end - mask_length) (int segment_start');
          mask_end = segment_end
      in int pos \<ge> mask_start \<and> int pos < mask_end \<and> decision)"

definition final_mask :: "int \<Rightarrow> nat list \<Rightarrow> int list \<Rightarrow> bool list \<Rightarrow> nat \<Rightarrow> bool" where
  "final_mask mask_length starts lengths decisions pos =
     list_ex (\<lambda>(st, len, d). mask_matrix mask_length st len d pos) (zip starts (zip lengths decisions))"

definition apply_masks_parallel ::
  "tensor2 \<Rightarrow> nat list list \<Rightarrow> int list list \<Rightarrow> bool list list \<Rightarrow> int \<Rightarrow> nat \<Rightarrow> tensor2" where
  "apply_masks_parallel masked_mel2ph segment_starts segment_lengths mask_decisions mask_length L =
     map (\<lambda>(result, starts, lengths, decisions).
            map2 (\<lambda>pos v. if final_mask mask_length starts lengths decisions pos then 1 else v)
              [0..<L] result)
       (zip masked_mel2ph (zip segment_starts (zip segment_lengths mask_decisions)))"

text \<open>
  \<^verbatim>\<open>fast_fast_bbc_mask\<close>. \<^verbatim>\<open>segment_ids.max()\<close> raises on a tensor without elements,
  that is when the input has no row or no frame.
\<close>

definition fast_fast_bbc_mask ::
  "tensor2 \<Rightarrow> int \<Rightarrow> int \<Rightarrow> real \<Rightarrow> (nat \<Rightarrow> real) \<Rightarrow> nat \<Rightarrow> error + (tensor2 \<times> nat)" where
  "fast_fast_bbc_mask mel2ph mask_length min_segment_length mask_prob g pos =
     (let L = seq_len mel2ph;
          masked_mel2ph = shift_values mel2ph;
          segment_ids = map segment_ids_row masked_mel2ph
      in if concat segment_ids = [] then Inl EmptyReduction
         else
           let max_segments = nat (Max (set (concat segment_ids)) + 1)
           in case compute_segment_info_parallel masked_mel2ph segment_ids max_segments L of
                Inl e \<Rightarrow> Inl e
              | Inr (segment_starts, segment_lengths, segment_values) \<Rightarrow>
                  let valid_segments =
                        map2 (map2 (\<lambda>v l. v \<noteq> 0 \<and> min_segment_length \<le> l))
                          segment_values segment_lengths;
                      (random_vals, pos') =
                        torch_rand_like g (batch_size mel2ph) max_segments pos;
                      mask_decisions =
                        map2 (map2 (\<lambda>v r. v \<and> r < mask_prob)) valid_segments random_vals
                  in Inr (apply_masks_parallel masked_mel2ph segment_starts segment_lengths
                            mask_decisions mask_length L, pos'))"

subsection \<open>Notions used in the statements\<close>

text \<open>A row in which the padding value \<open>-1\<close> of the boundary detection does not occur.\<close>

definition sentinel_free :: "int list \<Rightarrow> bool" where
  "sentinel_free seq = list_all (\<lambda>v. v \<noteq> - 1) seq"

text \<open>Frame \<open>l\<close> lies in segment \<open>j\<close> of the boundary list.\<close>

definition in_segment :: "nat list \<Rightarrow> nat \<Rightarrow> nat \<Rightarrow> bool" where
  "in_segment bd j l = (Suc j < length bd \<and> bd ! j \<le> l \<and> l < bd ! Suc j)"

text \<open>
  Frame \<open>l\<close> lies in the window \<open>[max(start, start + len - mask_length), start + len)\<close>
  of the segment \<open>(start, len)\<close>.
\<close>

definition in_window :: "int \<Rightarrow> nat \<Rightarrow> int \<Rightarrow> nat \<Rightarrow> bool" where
  "in_window mask_length start len l =
     (max (int start) (int start + len - mask_length) \<le> int l \<and> int l < int start + len)"

text \<open>
  The sequential strategy on sample \<open>seq\<close>: the number of draws it takes, the segments
  it selects when the generator stands at \<open>pos\<close>, and the number of draws the samples
  before sample \<open>b\<close> have taken.
\<close>

definition draws_used :: "int \<Rightarrow> int list \<Rightarrow> nat" where
  "draws_used min_segment_length seq = length (where_true (valid_mask min_segment_length seq))"

definition selected_of :: "int \<Rightarrow> real \<Rightarrow> (nat \<Rightarrow> real) \<Rightarrow> int list \<Rightarrow> nat \<Rightarrow> nat list" where
  "selected_of min_segment_length mask_prob g seq pos =
     selected_segments mask_prob (where_true (valid_mask min_segment_length seq))
       (fst (torch_rand g (draws_used min_segment_length seq) pos))"

definition draw_offset :: "int \<Rightarrow> tensor2 \<Rightarrow> nat \<Rightarrow> nat" where
  "draw_offset min_segment_length rows b = sum_list (map (draws_used min_segment_length) (take b rows))"

text \<open>
  The batched strategy: the number of slots of its table (\<^verbatim>\<open>max_segments\<close>, line 60),
  and the mask decision of slot \<open>s\<close> of sample \<open>b\<close> (lines 67 to 70), whose draw is
  entry \<open>(b, s)\<close> of \<^verbatim>\<open>random_vals\<close>.
\<close>

definition max_segments_of :: "tensor2 \<Rightarrow> nat" where
  "max_segments_of mel2ph =
     nat (Max (set (concat (map segment_ids_row (shift_values mel2ph)))) + 1)"

definition decision_of :: "tensor2 \<Rightarrow> int \<Rightarrow> real \<Rightarrow> (nat \<Rightarrow> real) \<Rightarrow> nat \<Rightarrow> nat \<Rightarrow> nat \<Rightarrow> bool" where
  "decision_of mel2ph min_segment_length mask_prob g pos b s =
     (let seq = shift_values mel2ph ! b; ids = segment_ids_row seq
      in segment_value seq ids s (seq_len mel2ph) \<noteq> 0 \<and>
         min_segment_length \<le> segment_length ids s \<and>
         g (pos + b * max_segments_of mel2ph + s) < mask_prob)"

text \<open>
  Synchronized draws: the draw the sequential strategy takes for the \<open>k\<close>-th eligible
  segment of a sample is the draw the batched strategy takes for the slot of that segment.
\<close>

definition synchronized :: "tensor2 \<Rightarrow> int \<Rightarrow> (nat \<Rightarrow> real) \<Rightarrow> nat \<Rightarrow> (nat \<Rightarrow> real) \<Rightarrow> nat \<Rightarrow> bool" where
  "synchronized mel2ph min_segment_length gA posA gB posB =
     (\<forall>b<length mel2ph. \<forall>k<draws_used min_segment_length (shift_values mel2ph ! b).
        gA (posA + draw_offset min_segment_length (shift_values mel2ph) b + k) =
        gB (posB + b * max_segments_of mel2ph +
            where_true (valid_mask min_segment_length (shift_values mel2ph ! b)) ! k))"

section \<open>Boundaries and segment ids\<close>

declare upt_Suc [simp del]


lemma length_diff_mask: "length (diff_mask seq) = Suc (length seq)"
  by (simp add: diff_mask_def pad_row_def Let_def)

lemma diff_mask_nth:
  "i \<le> length seq \<Longrightarrow>
   diff_mask seq ! i = ((if i < length seq then seq ! i else - 1) \<noteq> (if i = 0 then - 1 else seq ! (i - 1)))"
  by (auto simp: diff_mask_def pad_row_def Let_def nth_append nth_Cons' butlast_append nth_butlast)

lemma boundaries_of_eq: "boundaries_of seq = filter (\<lambda>i. diff_mask seq ! i) [0..<Suc (length seq)]"
  by (simp add: boundaries_of_def where_true_def length_diff_mask)

lemma boundaries_sorted: "sorted_wrt (<) (boundaries_of seq)"
  unfolding boundaries_of_eq by (rule sorted_wrt_filter) simp

lemma boundaries_le: "b \<in> set (boundaries_of seq) \<Longrightarrow> b \<le> length seq"
  unfolding boundaries_of_eq by auto

lemma filter_upt_split:
  assumes "l < n"
  shows "filter P [0..<Suc n] = filter P [0..<Suc l] @ filter P [Suc l..<Suc n]"
proof -
  have "[0..<Suc n] = [0..<Suc l] @ [Suc l..<Suc n]"
    using assms upt_add_eq_append [of 0 "Suc l" "n - l"] by simp
  then show ?thesis by simp
qed

lemma count_below:
  assumes "l < n" "P n"
  defines "bd \<equiv> filter P [0..<Suc n]" and "k \<equiv> length (filter P [0..<Suc l])"
  shows "k < length bd" and "l < bd ! k" and "0 < k \<Longrightarrow> bd ! (k - 1) \<le> l"
proof -
  let ?pre = "filter P [0..<Suc l]" and ?post = "filter P [Suc l..<Suc n]"
  have bd: "bd = ?pre @ ?post" unfolding bd_def by (rule filter_upt_split [OF assms(1)])
  have "n \<in> set ?post" using assms by simp
  then have ne: "?post \<noteq> []" by (metis empty_iff list.set(1))
  show "k < length bd" using ne by (simp add: bd k_def)
  have "bd ! k = ?post ! 0" by (simp add: bd k_def nth_append)
  moreover have "?post ! 0 \<in> set ?post" using ne by (intro nth_mem) simp
  then have "?post ! 0 \<in> set [Suc l..<Suc n]" by (metis filter_is_subset subsetD)
  then have "l < ?post ! 0" by simp
  ultimately show "l < bd ! k" by simp
  show "bd ! (k - 1) \<le> l" if "0 < k"
  proof -
    have "bd ! (k - 1) = ?pre ! (k - 1)" using that by (simp add: bd k_def nth_append)
    moreover have "?pre ! (k - 1) \<in> set ?pre" using that by (intro nth_mem) (simp add: k_def)
    then have "?pre ! (k - 1) \<in> set [0..<Suc l]" by (metis filter_is_subset subsetD)
    then have "?pre ! (k - 1) \<le> l" by simp
    ultimately show ?thesis by simp
  qed
qed

lemma count_unique:
  assumes "l < n" "P n" "P 0" "sorted_wrt (<) bd" "bd = filter P [0..<Suc n]"
  shows "(length (filter P [0..<Suc l]) = Suc j) = (Suc j < length bd \<and> bd ! j \<le> l \<and> l < bd ! Suc j)"
proof -
  let ?k = "length (filter P [0..<Suc l])"
  have "0 \<in> set (filter P [0..<Suc l])" using assms by simp
  then have kpos: "0 < ?k" by (rule length_pos_if_in_set)
  have k1: "?k < length bd" and k2: "l < bd ! ?k" and k3: "bd ! (?k - 1) \<le> l"
    using count_below [of l n P, OF assms(1,2)] kpos unfolding assms(5) by blast+
  show ?thesis
  proof
    assume "?k = Suc j"
    then show "Suc j < length bd \<and> bd ! j \<le> l \<and> l < bd ! Suc j"
      using k1 k2 k3 by simp
  next
    assume a: "Suc j < length bd \<and> bd ! j \<le> l \<and> l < bd ! Suc j"
    have mono: "bd ! a \<le> bd ! b" if "a \<le> b" "b < length bd" for a b
    proof (cases "a = b")
      case False
      then have "a < b" using that by simp
      then show ?thesis using assms(4) that by (simp add: sorted_wrt_nth_less less_imp_le)
    qed simp
    have "\<not> Suc j < ?k"
    proof
      assume "Suc j < ?k"
      then have "Suc j \<le> ?k - 1" and "?k - 1 < length bd" using k1 by simp_all
      then have "bd ! Suc j \<le> bd ! (?k - 1)" by (rule mono)
      then show False using a k3 by simp
    qed
    moreover have "\<not> ?k < Suc j"
    proof
      assume "?k < Suc j"
      then have "?k \<le> j" and "j < length bd" using a by simp_all
      then have "bd ! ?k \<le> bd ! j" by (rule mono)
      then show False using a k2 by simp
    qed
    ultimately show "?k = Suc j" by simp
  qed
qed


lemma length_cumsum_from: "length (cumsum_from a xs) = length xs"
  by (induction xs arbitrary: a) auto

lemma cumsum_from_nth: "i < length xs \<Longrightarrow> cumsum_from a xs ! i = a + sum_list (take (Suc i) xs)"
proof (induction xs arbitrary: a i)
  case Nil
  then show ?case by simp
next
  case (Cons x xs)
  then show ?case by (cases i) (auto simp: add.assoc)
qed

lemma sum_list_flags: "sum_list (map (\<lambda>b. if b then 1 else 0) bs) = int (length (filter (\<lambda>b. b) bs))"
  by (induction bs) auto

lemma take_as_map_nth: "m \<le> length bs \<Longrightarrow> take m bs = map (\<lambda>i. bs ! i) [0..<m]"
  by (rule nth_equalityI) auto

lemma count_flags_take:
  assumes "m \<le> length bs"
  shows "length (filter (\<lambda>b. b) (take m bs)) = length (filter (\<lambda>i. bs ! i) [0..<m])"
proof -
  have "filter (\<lambda>b. b) (take m bs) = map (\<lambda>i. bs ! i) (filter (\<lambda>i. bs ! i) [0..<m])"
    by (simp add: take_as_map_nth [OF assms] filter_map o_def)
  then show ?thesis by simp
qed

lemma length_segment_ids_row: "length (segment_ids_row seq) = length seq"
  by (simp add: segment_ids_row_def Let_def cumsum_def length_cumsum_from length_diff_mask)

lemma segment_ids_row_nth:
  assumes "l < length seq"
  shows "segment_ids_row seq ! l = int (length (filter (\<lambda>i. diff_mask seq ! i) [0..<Suc l])) - 1"
proof -
  let ?fl = "map (\<lambda>b. if b then 1 else 0) (diff_mask seq) :: int list"
  have len: "length ?fl = Suc (length seq)" by (simp add: length_diff_mask)
  have "segment_ids_row seq ! l = cumsum_from 0 ?fl ! l - 1"
  proof -
    let ?cs = "map (\<lambda>c. c - 1) (cumsum_from 0 ?fl)"
    have "length ?cs = Suc (length seq)" by (simp add: length_cumsum_from length_diff_mask)
    then have "butlast ?cs ! l = ?cs ! l" using assms by (simp add: nth_butlast)
    also have "\<dots> = cumsum_from 0 ?fl ! l - 1"
      using assms by (simp add: length_cumsum_from length_diff_mask)
    finally show ?thesis by (simp add: segment_ids_row_def Let_def cumsum_def)
  qed
  also have "cumsum_from 0 ?fl ! l = sum_list (take (Suc l) ?fl)"
    using assms by (simp add: cumsum_from_nth length_diff_mask)
  also have "take (Suc l) ?fl = map (\<lambda>b. if b then 1 else 0) (take (Suc l) (diff_mask seq))"
    by (simp add: take_map)
  also have "sum_list \<dots> = int (length (filter (\<lambda>b. b) (take (Suc l) (diff_mask seq))))"
    by (rule sum_list_flags)
  also have "length (filter (\<lambda>b. b) (take (Suc l) (diff_mask seq))) =
      length (filter (\<lambda>i. diff_mask seq ! i) [0..<Suc l])"
    using assms by (intro count_flags_take) (simp add: length_diff_mask)
  finally show ?thesis .
qed


lemma diff_mask_first: "sentinel_free seq \<Longrightarrow> seq \<noteq> [] \<Longrightarrow> diff_mask seq ! 0"
  by (cases seq) (auto simp: diff_mask_nth sentinel_free_def)

lemma diff_mask_last: "sentinel_free seq \<Longrightarrow> seq \<noteq> [] \<Longrightarrow> diff_mask seq ! length seq"
proof -
  assume a: "sentinel_free seq" "seq \<noteq> []"
  then have "seq ! (length seq - 1) \<in> set seq" by simp
  then have "seq ! (length seq - 1) \<noteq> - 1" using a by (simp add: sentinel_free_def list_all_iff)
  then show ?thesis using a by (simp add: diff_mask_nth)
qed


lemma segment_id_iff:
  assumes "sentinel_free seq" "l < length seq"
  shows "(segment_ids_row seq ! l = int j) = in_segment (boundaries_of seq) j l"
proof -
  have ne: "seq \<noteq> []" using assms by auto
  let ?P = "\<lambda>i. diff_mask seq ! i"
  have "(length (filter ?P [0..<Suc l]) = Suc j) = in_segment (boundaries_of seq) j l"
    unfolding in_segment_def
    by (rule count_unique [OF assms(2) diff_mask_last [OF assms(1) ne]
          diff_mask_first [OF assms(1) ne] boundaries_sorted boundaries_of_eq])
  then show ?thesis by (auto simp: segment_ids_row_nth [OF assms(2)])
qed

lemma length_boundaries_le: "length (boundaries_of seq) \<le> Suc (length seq)"
proof -
  have "length (boundaries_of seq) \<le> length [0..<Suc (length seq)]"
    unfolding boundaries_of_eq by (rule length_filter_le)
  then show ?thesis by simp
qed

lemma length_starts_of: "length (starts_of seq) = length (boundaries_of seq) - 1"
  by (simp add: starts_of_def)

lemma length_ends_of: "length (ends_of seq) = length (boundaries_of seq) - 1"
  by (simp add: ends_of_def)

lemma starts_of_nth: "j < length (starts_of seq) \<Longrightarrow> starts_of seq ! j = boundaries_of seq ! j"
  by (simp add: starts_of_def nth_butlast)

lemma ends_of_nth: "j < length (starts_of seq) \<Longrightarrow> ends_of seq ! j = boundaries_of seq ! Suc j"
  by (simp add: starts_of_def ends_of_def nth_tl)

lemma length_lengths_of: "length (lengths_of seq) = length (starts_of seq)"
  by (simp add: lengths_of_def length_starts_of length_ends_of)

lemma length_values_of: "length (values_of seq) = length (starts_of seq)"
  by (simp add: values_of_def)

lemma lengths_of_nth:
  "j < length (starts_of seq) \<Longrightarrow>
   lengths_of seq ! j = int (boundaries_of seq ! Suc j) - int (boundaries_of seq ! j)"
  by (simp add: lengths_of_def length_starts_of length_ends_of starts_of_nth ends_of_nth)

lemma values_of_nth:
  "j < length (starts_of seq) \<Longrightarrow> values_of seq ! j = seq ! (boundaries_of seq ! j)"
  by (simp add: values_of_def starts_of_nth)

lemma boundaries_nth_less:
  "Suc j < length (boundaries_of seq) \<Longrightarrow> boundaries_of seq ! j < boundaries_of seq ! Suc j"
  using boundaries_sorted [of seq] by (simp add: sorted_wrt_nth_less)

lemma boundaries_nth_le:
  "j < length (boundaries_of seq) \<Longrightarrow> boundaries_of seq ! j \<le> length seq"
  by (rule boundaries_le) simp

lemma start_less_end:
  assumes "j < length (starts_of seq)"
  shows "starts_of seq ! j < ends_of seq ! j" and "ends_of seq ! j \<le> length seq"
  using assms boundaries_nth_less [of j seq] boundaries_nth_le [of "Suc j" seq]
  by (simp_all add: starts_of_nth ends_of_nth length_starts_of)

lemma length_valid_mask: "length (valid_mask msl seq) = length (starts_of seq)"
  by (simp add: valid_mask_def length_values_of length_lengths_of)

lemma valid_mask_nth:
  "j < length (starts_of seq) \<Longrightarrow>
   valid_mask msl seq ! j = (values_of seq ! j \<noteq> 0 \<and> msl \<le> lengths_of seq ! j)"
  by (simp add: valid_mask_def length_values_of length_lengths_of)

text \<open>Segments do not overlap: a frame lies in at most one.\<close>

lemma in_segment_unique:
  assumes "sorted_wrt (<) bd" "in_segment bd j l" "in_segment bd k l"
  shows "j = k"
proof (rule ccontr)
  assume "j \<noteq> k"
  have mono: "bd ! a \<le> bd ! b" if "a \<le> b" "b < length bd" for a b
  proof (cases "a = b")
    case False
    then have "a < b" using that by simp
    then show ?thesis using assms(1) that by (simp add: sorted_wrt_nth_less less_imp_le)
  qed simp
  consider "j < k" | "k < j" using \<open>j \<noteq> k\<close> by arith
  then show False
  proof cases
    case 1
    then have "bd ! Suc j \<le> bd ! k" using assms(3) by (intro mono) (simp_all add: in_segment_def)
    then show False using assms(2,3) by (simp add: in_segment_def)
  next
    case 2
    then have "bd ! Suc k \<le> bd ! j" using assms(2) by (intro mono) (simp_all add: in_segment_def)
    then show False using assms(2,3) by (simp add: in_segment_def)
  qed
qed

lemma segment_mask_eq:
  assumes "sentinel_free seq"
  shows "segment_mask (segment_ids_row seq) s =
         map (\<lambda>l. in_segment (boundaries_of seq) s l) [0..<length seq]"
  by (rule nth_equalityI)
     (simp_all add: segment_mask_def length_segment_ids_row segment_id_iff [OF assms])

lemma pos_masked_eq:
  assumes "sentinel_free seq"
  shows "pos_masked (segment_ids_row seq) s (length seq) =
         map (\<lambda>l. if in_segment (boundaries_of seq) s l then l else length seq) [0..<length seq]"
  by (rule nth_equalityI) (simp_all add: pos_masked_def segment_mask_eq [OF assms])

lemma length_filter_interval:
  assumes "b \<le> n"
  shows "length (filter (\<lambda>l. a \<le> l \<and> l < b) [0..<n]) = b - a"
proof -
  have "length (filter (\<lambda>l. a \<le> l \<and> l < b) [0..<n]) =
        card (set (filter (\<lambda>l. a \<le> l \<and> l < b) [0..<n]))"
    by (rule distinct_card [symmetric]) (rule distinct_filter, rule distinct_upt)
  also have "set (filter (\<lambda>l. a \<le> l \<and> l < b) [0..<n]) = {a..<b}"
    using assms by auto
  finally show ?thesis by simp
qed

lemma min_dim_eq_Min: "xs \<noteq> [] \<Longrightarrow> min_dim xs = Min (set xs)"
proof (cases xs)
  case (Cons a list)
  then show ?thesis using Min.set_eq_fold [of a list] by (simp add: min_dim_def)
qed simp

lemma not_real_segment:
  "\<not> s < length (starts_of seq) \<Longrightarrow> \<not> in_segment (boundaries_of seq) s l"
  by (auto simp: in_segment_def length_starts_of)

lemma segment_length_real:
  assumes "sentinel_free seq" "s < length (starts_of seq)"
  shows "segment_length (segment_ids_row seq) s = lengths_of seq ! s"
proof -
  let ?bd = "boundaries_of seq"
  have s: "Suc s < length ?bd" using assms(2) by (simp add: length_starts_of)
  have "length (filter (\<lambda>m. m) (segment_mask (segment_ids_row seq) s)) =
        length (filter (\<lambda>l. in_segment ?bd s l) [0..<length seq])"
    by (simp add: segment_mask_eq [OF assms(1)] filter_map o_def)
  also have "\<dots> = length (filter (\<lambda>l. ?bd ! s \<le> l \<and> l < ?bd ! Suc s) [0..<length seq])"
    using s by (simp add: in_segment_def)
  also have "\<dots> = ?bd ! Suc s - ?bd ! s"
    by (rule length_filter_interval) (rule boundaries_nth_le [OF s])
  finally show ?thesis
    using boundaries_nth_less [OF s] by (simp add: segment_length_def lengths_of_nth [OF assms(2)])
qed

lemma segment_length_padding:
  assumes "sentinel_free seq" "\<not> s < length (starts_of seq)"
  shows "segment_length (segment_ids_row seq) s = 0"
  by (simp add: segment_length_def segment_mask_eq [OF assms(1)] not_real_segment [OF assms(2)])

lemma segment_start_real:
  assumes "sentinel_free seq" "s < length (starts_of seq)"
  shows "segment_start (segment_ids_row seq) s (length seq) = starts_of seq ! s"
proof -
  let ?bd = "boundaries_of seq" and ?L = "length seq"
  let ?pm = "map (\<lambda>l. if in_segment ?bd s l then l else ?L) [0..<?L]"
  have s: "Suc s < length ?bd" using assms(2) by (simp add: length_starts_of)
  have lt: "?bd ! s < ?L" using boundaries_nth_less [OF s] boundaries_nth_le [OF s] by simp
  have inseg: "in_segment ?bd s (?bd ! s)" using s boundaries_nth_less [OF s] by (simp add: in_segment_def)
  have ne: "?pm \<noteq> []" using lt by auto
  have "Min (set ?pm) = ?bd ! s"
  proof (rule Min_eqI)
    show "finite (set ?pm)" by simp
    show "?bd ! s \<le> y" if "y \<in> set ?pm" for y
      using that lt by (auto simp: in_segment_def split: if_splits)
    show "?bd ! s \<in> set ?pm" using inseg lt by (auto simp: image_iff intro!: bexI [of _ "?bd ! s"])
  qed
  then show ?thesis
    using ne by (simp add: segment_start_def pos_masked_eq [OF assms(1)] min_dim_eq_Min starts_of_nth [OF assms(2)])
qed

lemma segment_start_padding:
  assumes "sentinel_free seq" "\<not> s < length (starts_of seq)" "seq \<noteq> []"
  shows "segment_start (segment_ids_row seq) s (length seq) = length seq"
proof -
  let ?L = "length seq"
  have no: "\<not> in_segment (boundaries_of seq) s l" for l
    by (rule not_real_segment [OF assms(2)])
  have pm: "pos_masked (segment_ids_row seq) s ?L = map (\<lambda>l. ?L) [0..<?L]"
    by (simp add: pos_masked_eq [OF assms(1)] no)
  have "map (\<lambda>l. ?L) [0..<?L] = replicate ?L ?L" by (simp add: map_replicate_const)
  then have "set (map (\<lambda>l. ?L) [0..<?L]) = {?L}" using assms(3) by simp
  then show ?thesis using assms(3) by (simp add: segment_start_def pm min_dim_eq_Min)
qed

lemma segment_value_real:
  assumes "sentinel_free seq" "s < length (starts_of seq)"
  shows "segment_value seq (segment_ids_row seq) s (length seq) = values_of seq ! s"
proof -
  let ?bd = "boundaries_of seq" and ?L = "length seq"
  have s: "Suc s < length ?bd" using assms(2) by (simp add: length_starts_of)
  have lt: "?bd ! s < ?L" using boundaries_nth_less [OF s] boundaries_nth_le [OF s] by simp
  have inseg: "in_segment ?bd s (?bd ! s)" using s boundaries_nth_less [OF s] by (simp add: in_segment_def)
  have st: "segment_start (segment_ids_row seq) s ?L = ?bd ! s"
    by (simp add: segment_start_real [OF assms] starts_of_nth [OF assms(2)])
  have "map2 (\<lambda>f v. if f then v else 0)
          (map (\<lambda>p. p = ?bd ! s) (pos_masked (segment_ids_row seq) s ?L)) seq =
        map (\<lambda>l. if l = ?bd ! s then seq ! l else 0) [0..<?L]"
    using lt inseg by (intro nth_equalityI) (auto simp: pos_masked_eq [OF assms(1)])
  then have "segment_value seq (segment_ids_row seq) s ?L =
      sum_list (map (\<lambda>l. if l = ?bd ! s then seq ! l else 0) [0..<?L])"
    by (simp add: segment_value_def st Let_def)
  also have "\<dots> = (\<Sum>l\<in>{0..<?L}. if l = ?bd ! s then seq ! l else 0)"
    by (simp add: interv_sum_list_conv_sum_set_nat)
  also have "\<dots> = seq ! (?bd ! s)" using lt by simp
  finally show ?thesis by (simp add: values_of_nth [OF assms(2)])
qed

lemma length_slice_set: "length (slice_set row lo hi v) = length row"
  by (simp add: slice_set_def Let_def)

lemma slice_set_nth:
  assumes "0 \<le> lo" "0 \<le> hi" "hi \<le> int (length row)" "i < length row"
  shows "slice_set row lo hi v ! i = (if lo \<le> int i \<and> int i < hi then v else row ! i)"
  using assms by (auto simp: slice_set_def Let_def slice_bound_def)

lemma length_write_mask: "length (write_mask ml seq j result) = length result"
  by (simp add: write_mask_def Let_def length_slice_set)

lemma write_mask_nth:
  assumes "j < length (starts_of seq)" "length result = length seq" "l < length seq"
  shows "write_mask ml seq j result ! l =
         (if in_window ml (starts_of seq ! j) (lengths_of seq ! j) l then 1 else result ! l)"
proof -
  let ?s = "starts_of seq ! j" and ?e = "ends_of seq ! j"
  have len: "lengths_of seq ! j = int ?e - int ?s"
    by (simp add: lengths_of_nth [OF assms(1)] starts_of_nth [OF assms(1)] ends_of_nth [OF assms(1)])
  have "write_mask ml seq j result ! l =
        (if max (int ?s) (int ?e - ml) \<le> int l \<and> int l < int ?e then 1 else result ! l)"
    unfolding write_mask_def Let_def
    using start_less_end [OF assms(1)] assms(2,3) by (intro slice_set_nth) simp_all
  then show ?thesis by (simp add: in_window_def len)
qed

lemma fold_write_mask_length:
  "length (fold (write_mask ml seq) sel result) = length result"
  by (induction sel arbitrary: result) (simp_all add: length_write_mask)

lemma fold_write_mask_nth:
  assumes "\<forall>j\<in>set sel. j < length (starts_of seq)" "length result = length seq" "l < length seq"
  shows "fold (write_mask ml seq) sel result ! l =
         (if \<exists>j\<in>set sel. in_window ml (starts_of seq ! j) (lengths_of seq ! j) l then 1
          else result ! l)"
  using assms
proof (induction sel arbitrary: result)
  case Nil
  then show ?case by simp
next
  case (Cons j sel)
  have "fold (write_mask ml seq) (j # sel) result ! l =
        fold (write_mask ml seq) sel (write_mask ml seq j result) ! l" by simp
  also have "\<dots> = (if \<exists>k\<in>set sel. in_window ml (starts_of seq ! k) (lengths_of seq ! k) l then 1
          else write_mask ml seq j result ! l)"
    using Cons.prems by (intro Cons.IH) (simp_all add: length_write_mask)
  also have "write_mask ml seq j result ! l =
      (if in_window ml (starts_of seq ! j) (lengths_of seq ! j) l then 1 else result ! l)"
    using Cons.prems by (intro write_mask_nth) simp_all
  finally show ?case by auto
qed

lemma where_true_set: "set (where_true bs) = {i. i < length bs \<and> bs ! i}"
  by (auto simp: where_true_def)

lemma where_true_distinct: "distinct (where_true bs)"
  by (simp add: where_true_def)

lemma selected_segments_subset: "set (selected_segments p vi draws) \<subseteq> set vi"
  by (auto simp: selected_segments_def dest: set_zip_leftD)

lemma selected_segments_iff:
  assumes "length draws = length vi"
  shows "j \<in> set (selected_segments p vi draws) = (\<exists>k<length vi. vi ! k = j \<and> draws ! k < p)"
  using assms by (auto simp: selected_segments_def set_zip image_iff)

lemma selected_of_valid:
  assumes "j \<in> set (selected_of msl p g seq pos)"
  shows "j < length (starts_of seq)" and "valid_mask msl seq ! j"
  using assms selected_segments_subset [of p "where_true (valid_mask msl seq)"]
  by (auto simp: selected_of_def where_true_set length_valid_mask)

lemma selected_of_iff:
  "j \<in> set (selected_of msl p g seq pos) =
   (\<exists>k<draws_used msl seq. where_true (valid_mask msl seq) ! k = j \<and> g (pos + k) < p)"
  by (subst selected_of_def, subst selected_segments_iff)
     (auto simp: torch_rand_def draws_used_def)

lemma where_true_empty: "\<not> list_ex (\<lambda>b. b) bs \<Longrightarrow> where_true bs = []"
proof -
  assume "\<not> list_ex (\<lambda>b. b) bs"
  then have n: "\<And>x. x \<in> set bs \<Longrightarrow> \<not> x" unfolding list_ex_iff by blast
  have "\<not> bs ! i" if "i < length bs" for i
    using n [OF nth_mem [OF that]] .
  then show ?thesis by (simp add: where_true_def filter_empty_conv)
qed

lemma valid_mask_no_segments: "length (boundaries_of seq) < 2 \<Longrightarrow> valid_mask msl seq = []"
proof -
  assume "length (boundaries_of seq) < 2"
  then have "length (valid_mask msl seq) = 0" by (simp add: length_valid_mask length_starts_of)
  then show ?thesis by simp
qed

lemma mask_sample_eq:
  "mask_sample ml msl p g seq pos =
   (fold (write_mask ml seq) (selected_of msl p g seq pos) seq, pos + draws_used msl seq)"
proof (cases "length (boundaries_of seq) < 2")
  case True
  have "where_true (valid_mask msl seq) = []"
    by (simp add: valid_mask_no_segments [OF True] where_true_def)
  then have "selected_of msl p g seq pos = []" and "draws_used msl seq = 0"
    by (simp_all add: selected_of_def draws_used_def selected_segments_def)
  then show ?thesis using True by (simp add: mask_sample_def)
next
  case False
  show ?thesis
  proof (cases "list_ex (\<lambda>b. b) (valid_mask msl seq)")
    case True
    then show ?thesis using False
      by (simp add: mask_sample_def selected_of_def draws_used_def torch_rand_def Let_def)
  next
    case nv: False
    have "where_true (valid_mask msl seq) = []" by (rule where_true_empty [OF nv])
    then have "selected_of msl p g seq pos = []" and "draws_used msl seq = 0"
      by (simp_all add: selected_of_def draws_used_def selected_segments_def)
    then show ?thesis using False nv by (simp add: mask_sample_def)
  qed
qed

lemma mask_samples_Cons:
  "mask_samples ml msl p g (seq # rest) pos =
   (fst (mask_sample ml msl p g seq pos) # fst (mask_samples ml msl p g rest (pos + draws_used msl seq)),
    snd (mask_samples ml msl p g rest (pos + draws_used msl seq)))"
proof -
  obtain rows pos'' where r: "mask_samples ml msl p g rest (pos + draws_used msl seq) = (rows, pos'')"
    by (cases "mask_samples ml msl p g rest (pos + draws_used msl seq)")
  show ?thesis
    by (simp only: mask_samples.simps mask_sample_eq Let_def split_conv r fst_conv snd_conv)
qed

lemma mask_samples_length: "length (fst (mask_samples ml msl p g rows pos)) = length rows"
proof (induction rows arbitrary: pos)
  case Nil
  show ?case by simp
next
  case (Cons seq rest)
  show ?case by (simp only: mask_samples_Cons fst_conv list.size Cons.IH)
qed

lemma draw_offset_0: "draw_offset msl rows 0 = 0"
  by (simp add: draw_offset_def)

lemma draw_offset_Suc:
  "draw_offset msl (seq # rest) (Suc b) = draws_used msl seq + draw_offset msl rest b"
  by (simp add: draw_offset_def)

lemma mask_samples_nth:
  "b < length rows \<Longrightarrow>
   fst (mask_samples ml msl p g rows pos) ! b =
   fst (mask_sample ml msl p g (rows ! b) (pos + draw_offset msl rows b))"
proof (induction rows arbitrary: pos b)
  case Nil
  then show ?case by simp
next
  case (Cons seq rest)
  show ?case
  proof (cases b)
    case 0
    then show ?thesis by (simp only: mask_samples_Cons fst_conv nth_Cons_0 draw_offset_0 add_0_right)
  next
    case (Suc b')
    then have "b' < length rest" using Cons.prems by simp
    from Cons.IH [OF this, of "pos + draws_used msl seq"]
    show ?thesis unfolding Suc
      by (simp only: mask_samples_Cons fst_conv nth_Cons_Suc draw_offset_Suc add.assoc)
  qed
qed

lemma mask_samples_pos:
  "snd (mask_samples ml msl p g rows pos) = pos + draw_offset msl rows (length rows)"
proof (induction rows arbitrary: pos)
  case Nil
  show ?case by (simp add: draw_offset_def)
next
  case (Cons seq rest)
  show ?case
    by (simp only: mask_samples_Cons snd_conv Cons.IH list.size draw_offset_Suc add.assoc
        add_Suc_right add_0_right One_nat_def)
qed

lemma mask_matrix_eq: "mask_matrix ml st len d l = (in_window ml st len l \<and> d)"
  by (auto simp: mask_matrix_def in_window_def Let_def)

lemma final_mask_iff:
  assumes "length starts = n" "length lens = n" "length decs = n"
  shows "final_mask ml starts lens decs l =
         (\<exists>s<n. decs ! s \<and> in_window ml (starts ! s) (lens ! s) l)"
proof -
  have "final_mask ml starts lens decs l =
        (\<exists>s<n. mask_matrix ml (starts ! s) (lens ! s) (decs ! s) l)"
  proof -
    have nth: "zip starts (zip lens decs) ! s = (starts ! s, lens ! s, decs ! s)" if "s < n" for s
      using that assms by simp
    have "final_mask ml starts lens decs l =
          (\<exists>s<n. case zip starts (zip lens decs) ! s of
                    (st, len, d) \<Rightarrow> mask_matrix ml st len d l)"
      unfolding final_mask_def list_ex_length using assms by simp
    also have "\<dots> = (\<exists>s<n. mask_matrix ml (starts ! s) (lens ! s) (decs ! s) l)"
      using nth by auto
    finally show ?thesis .
  qed
  then show ?thesis by (auto simp: mask_matrix_eq)
qed

lemma apply_masks_parallel_length:
  assumes "length sts = length masked" "length lens = length masked" "length decs = length masked"
  shows "length (apply_masks_parallel masked sts lens decs ml L) = length masked"
  using assms by (simp add: apply_masks_parallel_def)

lemma apply_masks_parallel_nth:
  assumes "length sts = length masked" "length lens = length masked" "length decs = length masked"
    and "b < length masked" "length (masked ! b) = L"
  shows "apply_masks_parallel masked sts lens decs ml L ! b =
         map (\<lambda>l. if final_mask ml (sts ! b) (lens ! b) (decs ! b) l then 1 else masked ! b ! l) [0..<L]"
  using assms by (intro nth_equalityI) (simp_all add: apply_masks_parallel_def)

lemma length_shift_values: "length (shift_values m) = length m"
  by (simp add: shift_values_def)

lemma shift_values_nth: "b < length m \<Longrightarrow> shift_values m ! b = map shift_value (m ! b)"
  by (simp add: shift_values_def)

lemma rectangular_nth: "rectangular m \<Longrightarrow> b < length m \<Longrightarrow> length (m ! b) = seq_len m"
  by (simp add: rectangular_def list_all_length)

lemma shifted_row_length:
  "rectangular m \<Longrightarrow> b < length m \<Longrightarrow> length (shift_values m ! b) = seq_len m"
  by (simp add: shift_values_nth rectangular_nth)

lemma segment_ids_nonempty:
  assumes "rectangular m" "m \<noteq> []" "0 < seq_len m"
  shows "concat (map segment_ids_row (shift_values m)) \<noteq> []"
proof -
  have b: "0 < length m" using assms(2) by simp
  have "shift_values m ! 0 \<in> set (shift_values m)"
    using b by (intro nth_mem) (simp add: length_shift_values)
  then have "segment_ids_row (shift_values m ! 0) \<in> set (map segment_ids_row (shift_values m))"
    by simp
  moreover have "segment_ids_row (shift_values m ! 0) \<noteq> []"
    using shifted_row_length [OF assms(1) b] assms(3) length_segment_ids_row [of "shift_values m ! 0"]
    by auto
  ultimately show ?thesis by auto
qed

lemma segment_ids_empty:
  assumes "m = [] \<or> (rectangular m \<and> seq_len m = 0)"
  shows "concat (map segment_ids_row (shift_values m)) = []"
proof -
  have "segment_ids_row r = []" if "r \<in> set (shift_values m)" for r
  proof -
    from that obtain b where b: "b < length m" "r = shift_values m ! b"
      by (metis in_set_conv_nth length_shift_values)
    then have "rectangular m \<and> seq_len m = 0" using assms by auto
    then have "length r = 0" using b shifted_row_length [of m b] by simp
    then have "length (segment_ids_row r) = 0" by (simp add: length_segment_ids_row)
    then show ?thesis by simp
  qed
  then show ?thesis by simp
qed

text \<open>The batched strategy raises without a frame and returns with one.\<close>

lemma fast_fast_bbc_mask_empty:
  assumes "m = [] \<or> (rectangular m \<and> seq_len m = 0)"
  shows "fast_fast_bbc_mask m ml msl p g pos = Inl EmptyReduction"
  unfolding fast_fast_bbc_mask_def Let_def segment_ids_empty [OF assms] by simp

lemma fast_fast_bbc_mask_returns:
  assumes "rectangular m" "m \<noteq> []" "0 < seq_len m"
  shows "\<exists>out. fast_fast_bbc_mask m ml msl p g pos =
           Inr (out, pos + length m * max_segments_of m) \<and>
         length out = length m \<and>
         (\<forall>b<length m. out ! b =
            map (\<lambda>l. if \<exists>s<max_segments_of m. decision_of m msl p g pos b s \<and>
                          in_window ml (segment_start (segment_ids_row (shift_values m ! b)) s (seq_len m))
                            (segment_length (segment_ids_row (shift_values m ! b)) s) l
                      then 1 else shift_values m ! b ! l) [0..<seq_len m])"
proof -
  let ?L = "seq_len m" and ?S = "max_segments_of m" and ?masked = "shift_values m"
  let ?ids = "map segment_ids_row ?masked"
  let ?sts = "map (\<lambda>ids. map (\<lambda>s. segment_start ids s ?L) [0..<?S]) ?ids"
  let ?lens = "map (\<lambda>ids. map (\<lambda>s. segment_length ids s) [0..<?S]) ?ids"
  let ?vals = "map (\<lambda>(seq, ids). map (\<lambda>s. segment_value seq ids s ?L) [0..<?S]) (zip ?masked ?ids)"
  let ?valid = "map2 (map2 (\<lambda>v l. v \<noteq> 0 \<and> msl \<le> l)) ?vals ?lens"
  let ?decs = "map2 (map2 (\<lambda>v r. v \<and> r < p)) ?valid (fst (torch_rand_like g (length m) ?S pos))"
  let ?out = "apply_masks_parallel ?masked ?sts ?lens ?decs ml ?L"
  have ne: "concat ?ids \<noteq> []" by (rule segment_ids_nonempty [OF assms])
  have L: "?L \<noteq> 0" using assms(3) by simp
  have eq: "fast_fast_bbc_mask m ml msl p g pos = Inr (?out, pos + length m * ?S)"
    using ne L
    by (simp add: fast_fast_bbc_mask_def Let_def compute_segment_info_parallel_def
        max_segments_of_def [symmetric] torch_rand_like_def batch_size_def split_def
        del: concat_eq_Nil_conv set_concat)
  have lens: "length ?sts = length ?masked" "length ?lens = length ?masked"
    "length ?decs = length ?masked"
    by (simp_all add: length_shift_values torch_rand_like_def)
  have len: "length ?out = length m"
    using apply_masks_parallel_length [OF lens] by (simp add: length_shift_values)
  have row: "?out ! b =
            map (\<lambda>l. if \<exists>s<?S. decision_of m msl p g pos b s \<and>
                          in_window ml (segment_start (segment_ids_row (?masked ! b)) s ?L)
                            (segment_length (segment_ids_row (?masked ! b)) s) l
                      then 1 else ?masked ! b ! l) [0..<?L]" if b: "b < length m" for b
  proof -
    have b': "b < length ?masked" using b by (simp add: length_shift_values)
    have dec: "?decs ! b ! s = decision_of m msl p g pos b s" if "s < ?S" for s
      using b b' that
      by (simp add: torch_rand_like_def decision_of_def Let_def length_shift_values)
    have st: "?sts ! b ! s = segment_start (segment_ids_row (?masked ! b)) s ?L" if "s < ?S" for s
      using b' that by simp
    have ln': "?lens ! b ! s = segment_length (segment_ids_row (?masked ! b)) s" if "s < ?S" for s
      using b' that by simp
    have fm: "final_mask ml (?sts ! b) (?lens ! b) (?decs ! b) l =
        (\<exists>s<?S. decision_of m msl p g pos b s \<and>
             in_window ml (segment_start (segment_ids_row (?masked ! b)) s ?L)
                (segment_length (segment_ids_row (?masked ! b)) s) l)" for l
    proof -
      have "final_mask ml (?sts ! b) (?lens ! b) (?decs ! b) l =
            (\<exists>s<?S. ?decs ! b ! s \<and> in_window ml (?sts ! b ! s) (?lens ! b ! s) l)"
        using b b' by (intro final_mask_iff) (simp_all add: torch_rand_like_def length_shift_values)
      then show ?thesis using dec st ln' by auto
    qed
    show ?thesis
      unfolding apply_masks_parallel_nth [OF lens b' shifted_row_length [OF assms(1) b]]
      by (simp only: fm)
  qed
  show ?thesis using eq len row by blast
qed

section \<open>The concrete scenario\<close>


lemma scenario_boundaries: "boundaries_of [0,0,4,4,4,4,4,4,0,6,6,6,6] = [0,2,8,9,13]"
  by code_simp

lemma scenario_table:
  "starts_of [0,0,4,4,4,4,4,4,0,6,6,6,6] = [0,2,8,9]"
  "ends_of [0,0,4,4,4,4,4,4,0,6,6,6,6] = [2,8,9,13]"
  "lengths_of [0,0,4,4,4,4,4,4,0,6,6,6,6] = [2,6,1,4]"
  "values_of [0,0,4,4,4,4,4,4,0,6,6,6,6] = [0,4,0,6]"
  "valid_mask 5 [0,0,4,4,4,4,4,4,0,6,6,6,6] = [False,True,False,False]"
  by code_simp+

lemma scenario_sequential:
  assumes "\<forall>k. g k < 1"
  shows "fast_bbc_mask [[0,0,3,3,3,3,3,3,0,5,5,5,5]] 2 5 1 g pos = ([[0,0,4,4,4,4,1,1,0,6,6,6,6]], pos + 1)"
  using assms
  by (simp add: fast_bbc_mask_def shift_values_def shift_value_def int64_max_def mask_sample_def scenario_boundaries scenario_table
      where_true_def torch_rand_def selected_segments_def write_mask_def slice_set_def slice_bound_def
      upt_Suc eval_nat_numeral Let_def)

lemma scenario_segment_ids: "segment_ids_row [0,0,4,4,4,4,4,4,0,6,6,6,6] = [0,0,1,1,1,1,1,1,2,3,3,3,3]"
  by code_simp

lemma scenario_segment_info:
  "compute_segment_info_parallel [[0,0,4,4,4,4,4,4,0,6,6,6,6]] [[0,0,1,1,1,1,1,1,2,3,3,3,3]] 4
     (seq_len [[0,0,3,3,3,3,3,3,0,5,5,5,5]]) =
   Inr ([[0,2,8,9]], [[2,6,1,4]], [[0,4,0,6]])"
  by code_simp

lemma scenario_batched:
  assumes "\<forall>k. g k < 1"
  shows "fast_fast_bbc_mask [[0,0,3,3,3,3,3,3,0,5,5,5,5]] 2 5 1 g pos = Inr ([[0,0,4,4,4,4,1,1,0,6,6,6,6]], pos + 4)"
  using assms
  apply (simp add: fast_fast_bbc_mask_def shift_values_def shift_value_def int64_max_def scenario_segment_ids scenario_segment_info
      batch_size_def Let_def)
  apply (simp add: seq_len_def torch_rand_like_def apply_masks_parallel_def final_mask_def mask_matrix_def
      upt_Suc eval_nat_numeral Let_def)
  done

lemma scenario_shift:
  "shift_values [[0,0,3,3,3,3,3,3,0,5,5,5,5]] = [[0,0,4,4,4,4,4,4,0,6,6,6,6]]"
  by (simp add: shift_values_def shift_value_def int64_max_def)

text \<open>
  C6. The row \<open>[0,0,3,3,3,3,3,3,0,5,5,5,5]\<close> with \<open>mask_length = 2\<close>,
  \<open>min_segment_length = 5\<close> and \<open>mask_prob = 1\<close>: the shifted row is
  \<open>[0,0,4,4,4,4,4,4,0,6,6,6,6]\<close>, its segments are \<open>(0,2,0)\<close>, \<open>(2,6,4)\<close>, \<open>(8,1,0)\<close>
  and \<open>(9,4,6)\<close> in both strategies, only \<open>(2,6,4)\<close> is eligible, and whatever the
  draws in \<open>[0, 1)\<close> are, both operations return \<open>[0,0,4,4,4,4,1,1,0,6,6,6,6]\<close>.
\<close>

theorem scenario_output:
  assumes "\<forall>k. 0 \<le> g k \<and> g k < 1"
  shows "shift_values [[0,0,3,3,3,3,3,3,0,5,5,5,5]] = [[0,0,4,4,4,4,4,4,0,6,6,6,6]] \<and>
         starts_of [0,0,4,4,4,4,4,4,0,6,6,6,6] = [0,2,8,9] \<and>
         lengths_of [0,0,4,4,4,4,4,4,0,6,6,6,6] = [2,6,1,4] \<and>
         values_of [0,0,4,4,4,4,4,4,0,6,6,6,6] = [0,4,0,6] \<and>
         valid_mask 5 [0,0,4,4,4,4,4,4,0,6,6,6,6] = [False,True,False,False] \<and>
         compute_segment_info_parallel [[0,0,4,4,4,4,4,4,0,6,6,6,6]]
           (map segment_ids_row [[0,0,4,4,4,4,4,4,0,6,6,6,6]]) 4 13 =
           Inr ([[0,2,8,9]], [[2,6,1,4]], [[0,4,0,6]]) \<and>
         fast_bbc_mask [[0,0,3,3,3,3,3,3,0,5,5,5,5]] 2 5 1 g pos =
           ([[0,0,4,4,4,4,1,1,0,6,6,6,6]], pos + 1) \<and>
         fast_fast_bbc_mask [[0,0,3,3,3,3,3,3,0,5,5,5,5]] 2 5 1 g pos =
           Inr ([[0,0,4,4,4,4,1,1,0,6,6,6,6]], pos + 4)"
proof -
  have g: "\<forall>k. g k < 1" using assms by simp
  have L: "seq_len [[0,0,3,3,3,3,3,3,0,5,5,5,5]] = 13" by (simp add: seq_len_def)
  show ?thesis
    using scenario_sequential [OF g] scenario_batched [OF g] scenario_segment_info
    by (simp only: scenario_shift scenario_table scenario_segment_ids L list.map simp_thms)
qed

theorem scenario_output_witness:
  "fast_bbc_mask [[0,0,3,3,3,3,3,3,0,5,5,5,5]] 2 5 1 (\<lambda>k. 1 / 2) 0 =
     ([[0,0,4,4,4,4,1,1,0,6,6,6,6]], 1) \<and>
   fast_fast_bbc_mask [[0,0,3,3,3,3,3,3,0,5,5,5,5]] 2 5 1 (\<lambda>k. 1 / 2) 0 =
     Inr ([[0,0,4,4,4,4,1,1,0,6,6,6,6]], 4)"
  using scenario_output [of "\<lambda>k. 1 / 2" 0] by simp

lemma sorted_nth_mono_le:
  assumes "sorted_wrt (<) (bd :: nat list)" "a \<le> b" "b < length bd"
  shows "bd ! a \<le> bd ! b"
proof (cases "a = b")
  case False
  then have "a < b" using assms(2) by simp
  then show ?thesis using assms(1,3) by (simp add: sorted_wrt_nth_less less_imp_le)
qed simp

lemma no_boundary_inside:
  assumes "sorted_wrt (<) (bd :: nat list)" "Suc j < length bd" "bd ! j < i" "i < bd ! Suc j"
  shows "i \<notin> set bd"
proof
  assume "i \<in> set bd"
  then obtain k where k: "k < length bd" "bd ! k = i" by (auto simp: in_set_conv_nth)
  have "\<not> k \<le> j"
  proof
    assume "k \<le> j"
    then have "bd ! k \<le> bd ! j" using assms(2) by (intro sorted_nth_mono_le [OF assms(1)]) simp_all
    then show False using k assms(3) by simp
  qed
  moreover have "\<not> Suc j \<le> k"
  proof
    assume "Suc j \<le> k"
    then have "bd ! Suc j \<le> bd ! k" using k by (intro sorted_nth_mono_le [OF assms(1)]) simp_all
    then show False using k assms(4) by simp
  qed
  ultimately show False by simp
qed

lemma boundaries_member: "i \<in> set (boundaries_of seq) = (i \<le> length seq \<and> diff_mask seq ! i)"
  by (auto simp: boundaries_of_eq)

text \<open>All frames of a segment hold the value at its start.\<close>

lemma segment_constant:
  assumes "in_segment (boundaries_of seq) j l"
  shows "seq ! l = seq ! (boundaries_of seq ! j)"
proof -
  let ?bd = "boundaries_of seq"
  have j: "Suc j < length ?bd" and lo: "?bd ! j \<le> l" and hi: "l < ?bd ! Suc j"
    using assms by (simp_all add: in_segment_def)
  have L: "?bd ! Suc j \<le> length seq" by (rule boundaries_nth_le [OF j])
  have step: "seq ! (?bd ! j + d) = seq ! (?bd ! j)" if "?bd ! j + d < ?bd ! Suc j" for d
    using that
  proof (induction d)
    case 0
    show ?case by simp
  next
    case (Suc d)
    let ?i = "?bd ! j + Suc d"
    have "?i \<notin> set ?bd"
      using Suc.prems by (intro no_boundary_inside [OF boundaries_sorted j]) simp_all
    moreover have "?i < length seq" using Suc.prems L by simp
    ultimately have "\<not> diff_mask seq ! ?i" by (simp add: boundaries_member)
    then have "seq ! ?i = seq ! (?i - 1)" using \<open>?i < length seq\<close> by (simp add: diff_mask_nth)
    also have "\<dots> = seq ! (?bd ! j)" using Suc.IH Suc.prems by simp
    finally show ?case .
  qed
  have "seq ! (?bd ! j + (l - ?bd ! j)) = seq ! (?bd ! j)"
    using lo hi by (intro step) simp
  then show ?thesis using lo by simp
qed

lemma in_window_segment:
  assumes "j < length (starts_of seq)" "in_window ml (starts_of seq ! j) (lengths_of seq ! j) l"
  shows "in_segment (boundaries_of seq) j l"
  using assms boundaries_nth_less [of j seq]
  by (simp add: in_window_def in_segment_def lengths_of_nth starts_of_nth length_starts_of)

lemma in_segment_frame: "in_segment (boundaries_of seq) j l \<Longrightarrow> l < length seq"
  using boundaries_nth_le [of "Suc j" seq] by (simp add: in_segment_def)

lemma in_segment_real: "in_segment (boundaries_of seq) j l \<Longrightarrow> j < length (starts_of seq)"
  by (auto simp: in_segment_def length_starts_of)

text \<open>Rows of the shifted tensor.\<close>

lemma shift_value_not_sentinel: "0 \<le> v \<Longrightarrow> shift_value v \<noteq> - 1"
  by (simp add: shift_value_def int64_min_def)

lemma shift_value_not_marker: "0 \<le> v \<Longrightarrow> shift_value v \<noteq> 1"
  by (simp add: shift_value_def int64_min_def)

lemma shift_value_zero: "(shift_value v = 0) = (v = 0)"
  by (simp add: shift_value_def int64_min_def)

text \<open>On the positive values of the dtype the shift is the sum in two's complement.\<close>

lemma shift_value_wraps:
  assumes "0 < v" "v \<le> int64_max"
  shows "shift_value v = (v + 1 + 2 ^ 63) mod 2 ^ 64 - 2 ^ 63"
proof (cases "v = int64_max")
  case True
  then show ?thesis by (simp add: shift_value_def int64_max_def int64_min_def)
next
  case False
  then have "0 \<le> v + 1 + 2 ^ 63" and "v + 1 + 2 ^ 63 < 2 ^ 64"
    using assms by (simp_all add: int64_max_def)
  then have "(v + 1 + 2 ^ 63) mod 2 ^ 64 = v + 1 + 2 ^ 63" by (rule mod_pos_pos_trivial)
  then show ?thesis using assms(1) False by (simp add: shift_value_def)
qed

lemma shift_value_ge_2: "0 < v \<Longrightarrow> v \<noteq> int64_max \<Longrightarrow> 2 \<le> shift_value v"
  by (simp add: shift_value_def)

lemma shifted_frame:
  assumes "rectangular m" "b < length m" "l < seq_len m"
  shows "shift_values m ! b ! l = shift_value (m ! b ! l)"
  using assms by (simp add: shift_values_nth rectangular_nth)

lemma non_negative_row:
  assumes "non_negative m" "b < length m"
  shows "sentinel_free (shift_values m ! b)"
proof -
  have "list_all (\<lambda>v. 0 \<le> v) (m ! b)"
    using assms by (simp add: non_negative_def list_all_length)
  then show ?thesis
    using assms(2) by (simp add: sentinel_free_def shift_values_nth list_all_iff shift_value_not_sentinel)
qed

lemma shifted_not_marker:
  assumes "non_negative m" "b < length m" "l < length (m ! b)"
  shows "shift_values m ! b ! l \<noteq> 1"
proof -
  have "0 \<le> m ! b ! l"
    using assms by (simp add: non_negative_def list_all_length)
  then show ?thesis using assms by (simp add: shift_values_nth shift_value_not_marker)
qed

text \<open>The sequential strategy, row by row.\<close>

lemma fast_bbc_mask_length: "length (fst (fast_bbc_mask m ml msl p g pos)) = length m"
  by (simp add: fast_bbc_mask_def mask_samples_length length_shift_values)

lemma fast_bbc_mask_pos:
  "snd (fast_bbc_mask m ml msl p g pos) = pos + draw_offset msl (shift_values m) (length m)"
  by (simp add: fast_bbc_mask_def mask_samples_pos length_shift_values)

lemma fast_bbc_mask_row:
  assumes "b < length m"
  shows "fst (fast_bbc_mask m ml msl p g pos) ! b =
         map (\<lambda>l. if \<exists>j\<in>set (selected_of msl p g (shift_values m ! b)
                               (pos + draw_offset msl (shift_values m) b)).
                        in_window ml (starts_of (shift_values m ! b) ! j)
                          (lengths_of (shift_values m ! b) ! j) l
                   then 1 else shift_values m ! b ! l)
           [0..<length (shift_values m ! b)]"
proof -
  let ?row = "shift_values m ! b"
  let ?sel = "selected_of msl p g ?row (pos + draw_offset msl (shift_values m) b)"
  have b': "b < length (shift_values m)" using assms by (simp add: length_shift_values)
  have eq: "fst (fast_bbc_mask m ml msl p g pos) ! b = fold (write_mask ml ?row) ?sel ?row"
    by (simp add: fast_bbc_mask_def mask_samples_nth [OF b'] mask_sample_eq)
  have sel: "\<forall>j\<in>set ?sel. j < length (starts_of ?row)"
    using selected_of_valid(1) by blast
  show ?thesis
    unfolding eq
    by (rule nth_equalityI)
       (simp_all add: fold_write_mask_length fold_write_mask_nth [OF sel])
qed

text \<open>Every real segment has a slot in the batched table.\<close>

lemma real_segment_slot:
  assumes "non_negative m" "b < length m" "s < length (starts_of (shift_values m ! b))"
  shows "s < max_segments_of m"
proof -
  let ?row = "shift_values m ! b" and ?all = "concat (map segment_ids_row (shift_values m))"
  let ?bd = "boundaries_of ?row"
  have nn: "sentinel_free ?row" by (rule non_negative_row [OF assms(1,2)])
  have s: "Suc s < length ?bd" using assms(3) by (simp add: length_starts_of)
  have lt: "?bd ! s < length ?row" using boundaries_nth_less [OF s] boundaries_nth_le [OF s] by simp
  have "in_segment ?bd s (?bd ! s)" using s boundaries_nth_less [OF s] by (simp add: in_segment_def)
  then have id: "segment_ids_row ?row ! (?bd ! s) = int s"
    by (simp add: segment_id_iff [OF nn lt])
  have "segment_ids_row ?row ! (?bd ! s) \<in> set (segment_ids_row ?row)"
    using lt by (intro nth_mem) (simp add: length_segment_ids_row)
  moreover have "?row \<in> set (shift_values m)"
    using assms(2) by (intro nth_mem) (simp add: length_shift_values)
  ultimately have "int s \<in> set ?all" using id by auto
  then have "int s \<le> Max (set ?all)" by (intro Max_ge) simp_all
  then show ?thesis by (simp add: max_segments_of_def)
qed

text \<open>The window of a slot without frames is empty.\<close>

lemma padding_window_empty:
  assumes "sentinel_free seq" "\<not> s < length (starts_of seq)" "seq \<noteq> []"
  shows "\<not> in_window ml (segment_start (segment_ids_row seq) s (length seq))
            (segment_length (segment_ids_row seq) s) l"
  by (simp add: segment_start_padding [OF assms] segment_length_padding [OF assms(1,2)] in_window_def)

section \<open>The mask window\<close>

lemma in_window_bounds: "in_window ml st len l \<Longrightarrow> st \<le> l \<and> int l < int st + len"
  by (simp add: in_window_def)

lemma window_set:
  assumes "0 \<le> len"
  shows "{l. in_window ml st len l} = {nat (max (int st) (int st + len - ml))..<st + nat len}"
  using assms by (auto simp: in_window_def)

lemma window_card:
  assumes "0 \<le> len" "1 \<le> ml"
  shows "int (card {l. in_window ml st len l}) = min ml len"
  unfolding window_set [OF assms(1)] using assms by (simp add: max_def min_def)

section \<open>Slots without frames\<close>

lemma compute_segment_info_parallel_nth:
  assumes "compute_segment_info_parallel masked ids S L = Inr (sts, lens, vals)"
    and "length ids = length masked" "b < length masked" "s < S"
  shows "sts ! b ! s = segment_start (ids ! b) s L"
    and "lens ! b ! s = segment_length (ids ! b) s"
    and "vals ! b ! s = segment_value (masked ! b) (ids ! b) s L"
  using assms by (auto simp: compute_segment_info_parallel_def split: if_splits)

text \<open>
  C7. In the batched strategy, a slot \<open>s\<close> at or beyond the number of segments of
  sample \<open>b\<close> has length 0 and start \<open>L\<close> in the table that
  \<^verbatim>\<open>compute_segment_info_parallel\<close> returns. With \<open>min_segment_length \<ge> 1\<close> it is not
  eligible and its mask decision is false whatever the draws are, and for every
  configuration its window holds no frame.
\<close>

theorem padding_slot_never_selected:
  assumes "rectangular m" "non_negative m" "b < length m" "0 < seq_len m"
    and "length (starts_of (shift_values m ! b)) \<le> s" "s < max_segments_of m"
  shows "(\<exists>sts lens vals.
            compute_segment_info_parallel (shift_values m)
              (map segment_ids_row (shift_values m)) (max_segments_of m) (seq_len m) =
              Inr (sts, lens, vals) \<and>
            lens ! b ! s = 0 \<and> sts ! b ! s = seq_len m \<and>
            (1 \<le> msl \<longrightarrow> \<not> (vals ! b ! s \<noteq> 0 \<and> msl \<le> lens ! b ! s))) \<and>
         (1 \<le> msl \<longrightarrow> \<not> decision_of m msl p g pos b s) \<and>
         (\<forall>l. \<not> in_window ml
                 (segment_start (segment_ids_row (shift_values m ! b)) s (seq_len m))
                 (segment_length (segment_ids_row (shift_values m ! b)) s) l)"
proof -
  let ?row = "shift_values m ! b" and ?L = "seq_len m" and ?S = "max_segments_of m"
  let ?ids = "map segment_ids_row (shift_values m)"
  have nn: "sentinel_free ?row" by (rule non_negative_row [OF assms(2,3)])
  have len: "length ?row = ?L" by (rule shifted_row_length [OF assms(1,3)])
  have ne: "?row \<noteq> []" using len assms(4) by auto
  have pad: "\<not> s < length (starts_of ?row)" using assms(5) by simp
  have l0: "segment_length (segment_ids_row ?row) s = 0"
    by (rule segment_length_padding [OF nn pad])
  have st: "segment_start (segment_ids_row ?row) s ?L = ?L"
    using segment_start_padding [OF nn pad ne] by (simp add: len)
  obtain sts lens vals where
    tab: "compute_segment_info_parallel (shift_values m) ?ids ?S ?L = Inr (sts, lens, vals)"
    using assms(4) by (auto simp: compute_segment_info_parallel_def)
  have b': "b < length (shift_values m)" using assms(3) by (simp add: length_shift_values)
  have "lens ! b ! s = 0" and "sts ! b ! s = ?L"
    using compute_segment_info_parallel_nth(1,2) [OF tab _ b' assms(6)] b' l0 st by simp_all
  then have first: "\<exists>sts lens vals.
            compute_segment_info_parallel (shift_values m) ?ids ?S ?L = Inr (sts, lens, vals) \<and>
            lens ! b ! s = 0 \<and> sts ! b ! s = ?L \<and>
            (1 \<le> msl \<longrightarrow> \<not> (vals ! b ! s \<noteq> 0 \<and> msl \<le> lens ! b ! s))"
    using tab by auto
  have second: "1 \<le> msl \<longrightarrow> \<not> decision_of m msl p g pos b s"
    by (simp add: decision_of_def Let_def l0)
  have third: "\<forall>l. \<not> in_window ml (segment_start (segment_ids_row ?row) s ?L)
                 (segment_length (segment_ids_row ?row) s) l"
    using padding_window_empty [OF nn pad ne] by (simp add: len)
  show ?thesis using first second third by blast
qed

theorem padding_slot_never_selected_witness:
  "(\<exists>sts lens vals.
      compute_segment_info_parallel (shift_values [[0,0,3,3,3,3,3],[1,2,2,2,2,2,3]])
        (map segment_ids_row (shift_values [[0,0,3,3,3,3,3],[1,2,2,2,2,2,3]]))
        (max_segments_of [[0,0,3,3,3,3,3],[1,2,2,2,2,2,3]])
        (seq_len [[0,0,3,3,3,3,3],[1,2,2,2,2,2,3]]) = Inr (sts, lens, vals) \<and>
      lens ! 0 ! 2 = 0 \<and> sts ! 0 ! 2 = 7) \<and>
   \<not> decision_of [[0,0,3,3,3,3,3],[1,2,2,2,2,2,3]] 5 1 (\<lambda>k. 0) 0 0 2"
proof -
  let ?m = "[[0,0,3,3,3,3,3],[1,2,2,2,2,2,3]] :: tensor2"
  have h: "rectangular ?m" "non_negative ?m" "0 < length ?m" "0 < seq_len ?m"
    by (simp_all add: rectangular_def non_negative_def seq_len_def)
  have n: "length (starts_of (shift_values ?m ! 0)) \<le> 2" by code_simp
  have S: "2 < max_segments_of ?m" by code_simp
  have L: "seq_len ?m = 7" by (simp add: seq_len_def)
  have a: "(1::int) \<le> 5" by simp
  show ?thesis
    using padding_slot_never_selected [OF h n S, of 5 1 "\<lambda>k. 0" 0 2] a
    unfolding L by blast
qed

section \<open>The two strategies on one sample\<close>

lemma decision_of_real:
  assumes "rectangular m" "non_negative m" "b < length m"
    and "s < length (starts_of (shift_values m ! b))"
  shows "decision_of m msl p g pos b s =
         (valid_mask msl (shift_values m ! b) ! s \<and> g (pos + b * max_segments_of m + s) < p)"
proof -
  let ?row = "shift_values m ! b"
  have nn: "sentinel_free ?row" by (rule non_negative_row [OF assms(2,3)])
  have len: "seq_len m = length ?row" using shifted_row_length [OF assms(1,3)] by simp
  show ?thesis
    unfolding decision_of_def Let_def len
    by (simp add: segment_value_real [OF nn assms(4)] segment_length_real [OF nn assms(4)]
        valid_mask_nth [OF assms(4)])
qed

lemma batched_marks_iff:
  assumes "rectangular m" "non_negative m" "b < length m" "0 < seq_len m"
  shows "(\<exists>s<max_segments_of m. decision_of m msl p g pos b s \<and>
            in_window ml (segment_start (segment_ids_row (shift_values m ! b)) s (seq_len m))
              (segment_length (segment_ids_row (shift_values m ! b)) s) l) =
         (\<exists>s<length (starts_of (shift_values m ! b)).
            valid_mask msl (shift_values m ! b) ! s \<and> g (pos + b * max_segments_of m + s) < p \<and>
            in_window ml (starts_of (shift_values m ! b) ! s) (lengths_of (shift_values m ! b) ! s) l)"
  (is "?lhs = ?rhs")
proof -
  let ?row = "shift_values m ! b" and ?S = "max_segments_of m"
  have nn: "sentinel_free ?row" by (rule non_negative_row [OF assms(2,3)])
  have len: "seq_len m = length ?row" using shifted_row_length [OF assms(1,3)] by simp
  have ne: "?row \<noteq> []" using len assms(4) by auto
  show ?thesis
  proof
    assume ?lhs
    then obtain s where s: "s < ?S" "decision_of m msl p g pos b s"
      "in_window ml (segment_start (segment_ids_row ?row) s (length ?row))
         (segment_length (segment_ids_row ?row) s) l"
      unfolding len by blast
    have real: "s < length (starts_of ?row)"
      using padding_window_empty [OF nn _ ne, of s ml l] s(3) by blast
    have "in_window ml (starts_of ?row ! s) (lengths_of ?row ! s) l"
      using s(3) by (simp add: segment_start_real [OF nn real] segment_length_real [OF nn real])
    then show ?rhs
      using real s(2) decision_of_real [OF assms(1,2,3) real] by blast
  next
    assume ?rhs
    then obtain s where s: "s < length (starts_of ?row)" "valid_mask msl ?row ! s"
      "g (pos + b * ?S + s) < p" "in_window ml (starts_of ?row ! s) (lengths_of ?row ! s) l"
      by blast
    have "s < ?S" by (rule real_segment_slot [OF assms(2,3) s(1)])
    moreover have "decision_of m msl p g pos b s"
      using s(2,3) decision_of_real [OF assms(1,2,3) s(1)] by blast
    moreover have "in_window ml (segment_start (segment_ids_row ?row) s (seq_len m))
         (segment_length (segment_ids_row ?row) s) l"
      unfolding len
      using s(4) by (simp add: segment_start_real [OF nn s(1)] segment_length_real [OF nn s(1)])
    ultimately show ?lhs by blast
  qed
qed

lemma fast_fast_bbc_mask_frame:
  assumes "rectangular m" "b < length m" "l < seq_len m"
    and "fast_fast_bbc_mask m ml msl p g pos = Inr (out, q)"
  shows "out ! b ! l =
         (if \<exists>s<max_segments_of m. decision_of m msl p g pos b s \<and>
               in_window ml (segment_start (segment_ids_row (shift_values m ! b)) s (seq_len m))
                 (segment_length (segment_ids_row (shift_values m ! b)) s) l
          then 1 else shift_values m ! b ! l)"
    and "length out = length m" and "length (out ! b) = seq_len m"
    and "q = pos + length m * max_segments_of m"
proof -
  have ne: "m \<noteq> []" "0 < seq_len m" using assms(2,3) by auto
  from fast_fast_bbc_mask_returns [OF assms(1) ne, of ml msl p g pos]
  obtain out' where o: "fast_fast_bbc_mask m ml msl p g pos =
           Inr (out', pos + length m * max_segments_of m)" "length out' = length m"
     "\<forall>b<length m. out' ! b =
            map (\<lambda>l. if \<exists>s<max_segments_of m. decision_of m msl p g pos b s \<and>
                          in_window ml (segment_start (segment_ids_row (shift_values m ! b)) s (seq_len m))
                            (segment_length (segment_ids_row (shift_values m ! b)) s) l
                      then 1 else shift_values m ! b ! l) [0..<seq_len m]"
    by blast
  have eq: "out = out'" "q = pos + length m * max_segments_of m" using o(1) assms(4) by simp_all
  show "length out = length m" using o(2) eq by simp
  show "q = pos + length m * max_segments_of m" by (rule eq(2))
  have row: "out ! b = map (\<lambda>l. if \<exists>s<max_segments_of m. decision_of m msl p g pos b s \<and>
                          in_window ml (segment_start (segment_ids_row (shift_values m ! b)) s (seq_len m))
                            (segment_length (segment_ids_row (shift_values m ! b)) s) l
                      then 1 else shift_values m ! b ! l) [0..<seq_len m]"
    using o(3) assms(2) eq by simp
  show "length (out ! b) = seq_len m" unfolding row by simp
  show "out ! b ! l =
         (if \<exists>s<max_segments_of m. decision_of m msl p g pos b s \<and>
               in_window ml (segment_start (segment_ids_row (shift_values m ! b)) s (seq_len m))
                 (segment_length (segment_ids_row (shift_values m ! b)) s) l
          then 1 else shift_values m ! b ! l)"
    unfolding row using assms(3) by (simp only: nth_map_upt add_0 diff_zero)
qed

lemma fast_bbc_mask_frame:
  assumes "rectangular m" "b < length m" "l < seq_len m"
  shows "fst (fast_bbc_mask m ml msl p g pos) ! b ! l =
         (if \<exists>j\<in>set (selected_of msl p g (shift_values m ! b)
                               (pos + draw_offset msl (shift_values m) b)).
                        in_window ml (starts_of (shift_values m ! b) ! j)
                          (lengths_of (shift_values m ! b) ! j) l
          then 1 else shift_values m ! b ! l)"
    and "length (fst (fast_bbc_mask m ml msl p g pos) ! b) = seq_len m"
  using assms(3) shifted_row_length [OF assms(1,2)]
  by (simp_all add: fast_bbc_mask_row [OF assms(2)])

section \<open>Marker and eligibility\<close>

lemma fast_fast_bbc_mask_total:
  assumes "rectangular m" "b < length m" "l < seq_len m"
  shows "\<exists>out q. fast_fast_bbc_mask m ml msl p g pos = Inr (out, q)"
proof -
  have ne: "m \<noteq> []" "0 < seq_len m" using assms(2,3) by auto
  from fast_fast_bbc_mask_returns [OF assms(1) ne, of ml msl p g pos] show ?thesis by blast
qed

subsection \<open>The writers\<close>

lemma apply_masks_parallel_frame:
  assumes "length sts = length masked" "length lens = length masked" "length decs = length masked"
    and "b < length masked" "length (sts ! b) = length (decs ! b)"
    and "length (lens ! b) = length (decs ! b)" "l < length (masked ! b)"
  shows "apply_masks_parallel masked sts lens decs ml (length (masked ! b)) ! b ! l =
         (if \<exists>s<length (decs ! b). decs ! b ! s \<and> in_window ml (sts ! b ! s) (lens ! b ! s) l
          then 1 else masked ! b ! l)"
proof -
  have "apply_masks_parallel masked sts lens decs ml (length (masked ! b)) ! b ! l =
        (if final_mask ml (sts ! b) (lens ! b) (decs ! b) l then 1 else masked ! b ! l)"
    unfolding apply_masks_parallel_nth [OF assms(1,2,3,4) refl]
    using assms(7) by (simp only: nth_map_upt add_0 diff_zero)
  then show ?thesis
    by (simp only: final_mask_iff [OF assms(5,6) refl])
qed

lemma apply_masks_parallel_one_slot:
  "apply_masks_parallel [result] [[st]] [[len]] [[True]] ml (length result) =
   [map (\<lambda>l. if in_window ml st len l then 1 else result ! l) [0..<length result]]"
proof -
  have "apply_masks_parallel [result] [[st]] [[len]] [[True]] ml (length result) ! 0 =
        map (\<lambda>l. if final_mask ml ([[st]] ! 0) ([[len]] ! 0) ([[True]] ! 0) l then 1
                  else [result] ! 0 ! l) [0..<length result]"
    by (rule apply_masks_parallel_nth) simp_all
  moreover have "final_mask ml [st] [len] [True] l = in_window ml st len l" for l
    using final_mask_iff [of "[st]" 1 "[len]" "[True]" ml l] by simp
  moreover have "length (apply_masks_parallel [result] [[st]] [[len]] [[True]] ml (length result)) = 1"
    by (simp add: apply_masks_parallel_def)
  ultimately show ?thesis
    by (cases "apply_masks_parallel [result] [[st]] [[len]] [[True]] ml (length result)") simp_all
qed

lemma fast_fast_bbc_mask_frame_real:
  assumes "rectangular m" "non_negative m" "b < length m" "l < seq_len m"
    and "fast_fast_bbc_mask m ml msl p g pos = Inr (out, q)"
  shows "out ! b ! l =
         (if \<exists>s<length (starts_of (shift_values m ! b)). decision_of m msl p g pos b s \<and>
               in_window ml (starts_of (shift_values m ! b) ! s)
                 (lengths_of (shift_values m ! b) ! s) l
          then 1 else shift_values m ! b ! l)"
proof -
  let ?row = "shift_values m ! b"
  have L: "0 < seq_len m" using assms(4) by simp
  have "(\<exists>s<length (starts_of ?row). valid_mask msl ?row ! s \<and>
            g (pos + b * max_segments_of m + s) < p \<and>
            in_window ml (starts_of ?row ! s) (lengths_of ?row ! s) l) =
        (\<exists>s<length (starts_of ?row). decision_of m msl p g pos b s \<and>
            in_window ml (starts_of ?row ! s) (lengths_of ?row ! s) l)"
    using decision_of_real [OF assms(1,2,3), of _ msl p g pos] by blast
  then show ?thesis
    unfolding fast_fast_bbc_mask_frame(1) [OF assms(1,3,4,5)]
      batched_marks_iff [OF assms(1,2,3) L]
    by (simp only:)
qed


text \<open>
  C3. For a segment \<open>(start, length)\<close> of a row and \<open>mask_length \<ge> 1\<close>, the frames
  the writers set to the marker are those of the window
  \<open>[max(start, start + length - mask_length), start + length)\<close> and no others. The slice
  assignment of the sequential strategy changes exactly these frames of the row.
  \<^verbatim>\<open>apply_masks_parallel\<close> sets a frame to the marker exactly when it lies in the window
  of a slot whose decision is true, so with the segment as its only slot it changes
  exactly the frames of the window. In the outputs of both operations the frames of the
  window are 1 when the segment is selected, and a frame is 1 only inside the window
  of a selected segment. The window lies inside the segment's frames
  \<open>[start, start + length)\<close>, which end within the row, and it has
  \<open>min(mask_length, length)\<close> frames.
\<close>

theorem mask_window_exact:
  assumes "1 \<le> ml" "j < length (starts_of seq)" "length result = length seq"
  shows "(\<forall>l<length seq. write_mask ml seq j result ! l =
            (if in_window ml (starts_of seq ! j) (lengths_of seq ! j) l then 1 else result ! l)) \<and>
         length (write_mask ml seq j result) = length seq \<and>
         (\<forall>l. mask_matrix ml (starts_of seq ! j) (lengths_of seq ! j) True l =
            in_window ml (starts_of seq ! j) (lengths_of seq ! j) l) \<and>
         {l. in_window ml (starts_of seq ! j) (lengths_of seq ! j) l} =
           {nat (max (int (starts_of seq ! j))
                  (int (starts_of seq ! j) + lengths_of seq ! j - ml))..<
            starts_of seq ! j + nat (lengths_of seq ! j)} \<and>
         {l. in_window ml (starts_of seq ! j) (lengths_of seq ! j) l} \<subseteq>
           {starts_of seq ! j..<starts_of seq ! j + nat (lengths_of seq ! j)} \<and>
         starts_of seq ! j + nat (lengths_of seq ! j) \<le> length seq \<and>
         int (card {l. in_window ml (starts_of seq ! j) (lengths_of seq ! j) l}) =
           min ml (lengths_of seq ! j) \<and>
         apply_masks_parallel [result] [[starts_of seq ! j]] [[lengths_of seq ! j]] [[True]] ml
             (length seq) =
           [map (\<lambda>l. if in_window ml (starts_of seq ! j) (lengths_of seq ! j) l then 1
                      else result ! l) [0..<length seq]] \<and>
         (\<forall>masked sts lens decs b l.
            length sts = length masked \<and> length lens = length masked \<and>
            length decs = length masked \<and> b < length masked \<and>
            length (sts ! b) = length (decs ! b) \<and> length (lens ! b) = length (decs ! b) \<and>
            l < length (masked ! b) \<longrightarrow>
            apply_masks_parallel masked sts lens decs ml (length (masked ! b)) ! b ! l =
              (if \<exists>s<length (decs ! b). decs ! b ! s \<and>
                    in_window ml (sts ! b ! s) (lens ! b ! s) l
               then 1 else masked ! b ! l)) \<and>
         (\<forall>m b msl p g pos.
            rectangular m \<and> non_negative m \<and> b < length m \<and> shift_values m ! b = seq \<longrightarrow>
            (\<exists>out q. fast_fast_bbc_mask m ml msl p g pos = Inr (out, q) \<and>
               (\<forall>l<length seq.
                  out ! b ! l =
                    (if \<exists>s<length (starts_of seq). decision_of m msl p g pos b s \<and>
                          in_window ml (starts_of seq ! s) (lengths_of seq ! s) l
                     then 1 else seq ! l) \<and>
                  fst (fast_bbc_mask m ml msl p g pos) ! b ! l =
                    (if \<exists>k\<in>set (selected_of msl p g seq
                                   (pos + draw_offset msl (shift_values m) b)).
                          in_window ml (starts_of seq ! k) (lengths_of seq ! k) l
                     then 1 else seq ! l)) \<and>
               (decision_of m msl p g pos b j \<longrightarrow>
                  (\<forall>l. in_window ml (starts_of seq ! j) (lengths_of seq ! j) l \<longrightarrow>
                     out ! b ! l = 1)) \<and>
               (j \<in> set (selected_of msl p g seq (pos + draw_offset msl (shift_values m) b)) \<longrightarrow>
                  (\<forall>l. in_window ml (starts_of seq ! j) (lengths_of seq ! j) l \<longrightarrow>
                     fst (fast_bbc_mask m ml msl p g pos) ! b ! l = 1))))"
proof -
  let ?st = "starts_of seq ! j" and ?len = "lengths_of seq ! j"
  have len: "?len = int (ends_of seq ! j) - int ?st"
    by (simp add: lengths_of_nth [OF assms(2)] starts_of_nth [OF assms(2)] ends_of_nth [OF assms(2)])
  have pos: "0 \<le> ?len" and fit: "?st + nat ?len \<le> length seq"
    using start_less_end [OF assms(2)] by (simp_all add: len)
  have frame: "0 < length seq" using start_less_end [OF assms(2)] by arith
  have w: "\<forall>l<length seq. write_mask ml seq j result ! l =
            (if in_window ml ?st ?len l then 1 else result ! l)"
    using write_mask_nth [OF assms(2,3)] by blast
  have mm: "\<forall>l. mask_matrix ml ?st ?len True l = in_window ml ?st ?len l"
    by (simp add: mask_matrix_eq)
  have sub: "{l. in_window ml ?st ?len l} \<subseteq> {?st..<?st + nat ?len}"
    using pos by (auto dest: in_window_bounds)
  have inside: "l < length seq" if "in_window ml ?st ?len l" for l
    using that sub fit by auto
  have one: "apply_masks_parallel [result] [[?st]] [[?len]] [[True]] ml (length seq) =
           [map (\<lambda>l. if in_window ml ?st ?len l then 1 else result ! l) [0..<length seq]]"
    using apply_masks_parallel_one_slot [of result ?st ?len ml] by (simp only: assms(3))
  have writer: "\<forall>masked sts lens decs b l.
            length sts = length masked \<and> length lens = length masked \<and>
            length decs = length masked \<and> b < length masked \<and>
            length (sts ! b) = length (decs ! b) \<and> length (lens ! b) = length (decs ! b) \<and>
            l < length (masked ! b) \<longrightarrow>
            apply_masks_parallel masked sts lens decs ml (length (masked ! b)) ! b ! l =
              (if \<exists>s<length (decs ! b). decs ! b ! s \<and>
                    in_window ml (sts ! b ! s) (lens ! b ! s) l
               then 1 else masked ! b ! l)"
    using apply_masks_parallel_frame by blast
  have outputs: "\<exists>out q. fast_fast_bbc_mask m ml msl p g pos = Inr (out, q) \<and>
               (\<forall>l<length seq.
                  out ! b ! l =
                    (if \<exists>s<length (starts_of seq). decision_of m msl p g pos b s \<and>
                          in_window ml (starts_of seq ! s) (lengths_of seq ! s) l
                     then 1 else seq ! l) \<and>
                  fst (fast_bbc_mask m ml msl p g pos) ! b ! l =
                    (if \<exists>k\<in>set (selected_of msl p g seq
                                   (pos + draw_offset msl (shift_values m) b)).
                          in_window ml (starts_of seq ! k) (lengths_of seq ! k) l
                     then 1 else seq ! l)) \<and>
               (decision_of m msl p g pos b j \<longrightarrow>
                  (\<forall>l. in_window ml ?st ?len l \<longrightarrow> out ! b ! l = 1)) \<and>
               (j \<in> set (selected_of msl p g seq (pos + draw_offset msl (shift_values m) b)) \<longrightarrow>
                  (\<forall>l. in_window ml ?st ?len l \<longrightarrow>
                     fst (fast_bbc_mask m ml msl p g pos) ! b ! l = 1))"
    if h: "rectangular m \<and> non_negative m \<and> b < length m \<and> shift_values m ! b = seq"
    for m b msl p g pos
  proof -
    have rect: "rectangular m" and nn: "non_negative m" and b: "b < length m"
      and row: "shift_values m ! b = seq" using h by simp_all
    have L: "seq_len m = length seq" using shifted_row_length [OF rect b] row by simp
    have l0: "0 < seq_len m" using frame L by simp
    obtain out q where o: "fast_fast_bbc_mask m ml msl p g pos = Inr (out, q)"
      using fast_fast_bbc_mask_total [OF rect b l0] by blast
    have B: "out ! b ! l =
          (if \<exists>s<length (starts_of seq). decision_of m msl p g pos b s \<and>
                in_window ml (starts_of seq ! s) (lengths_of seq ! s) l
           then 1 else seq ! l)" if "l < length seq" for l
    proof -
      have l': "l < seq_len m" using that L by simp
      show ?thesis using fast_fast_bbc_mask_frame_real [OF rect nn b l' o] unfolding row .
    qed
    have A: "fst (fast_bbc_mask m ml msl p g pos) ! b ! l =
          (if \<exists>k\<in>set (selected_of msl p g seq (pos + draw_offset msl (shift_values m) b)).
                in_window ml (starts_of seq ! k) (lengths_of seq ! k) l
           then 1 else seq ! l)" if "l < length seq" for l
    proof -
      have l': "l < seq_len m" using that L by simp
      show ?thesis using fast_bbc_mask_frame(1) [OF rect b l', of ml msl p g pos] unfolding row .
    qed
    have Bj: "out ! b ! l = 1" if "decision_of m msl p g pos b j" "in_window ml ?st ?len l" for l
    proof -
      have "\<exists>s<length (starts_of seq). decision_of m msl p g pos b s \<and>
              in_window ml (starts_of seq ! s) (lengths_of seq ! s) l"
        using that assms(2) by blast
      then show ?thesis unfolding B [OF inside [OF that(2)]] by (rule if_P)
    qed
    have Aj: "fst (fast_bbc_mask m ml msl p g pos) ! b ! l = 1"
      if "j \<in> set (selected_of msl p g seq (pos + draw_offset msl (shift_values m) b))"
        "in_window ml ?st ?len l" for l
    proof -
      have "\<exists>k\<in>set (selected_of msl p g seq (pos + draw_offset msl (shift_values m) b)).
              in_window ml (starts_of seq ! k) (lengths_of seq ! k) l"
        using that by blast
      then show ?thesis unfolding A [OF inside [OF that(2)]] by (rule if_P)
    qed
    show ?thesis using o A B Aj Bj by blast
  qed
  have first: "(\<forall>l<length seq. write_mask ml seq j result ! l =
            (if in_window ml ?st ?len l then 1 else result ! l)) \<and>
         length (write_mask ml seq j result) = length seq \<and>
         (\<forall>l. mask_matrix ml ?st ?len True l = in_window ml ?st ?len l) \<and>
         {l. in_window ml ?st ?len l} =
           {nat (max (int ?st) (int ?st + ?len - ml))..<?st + nat ?len} \<and>
         {l. in_window ml ?st ?len l} \<subseteq> {?st..<?st + nat ?len} \<and>
         ?st + nat ?len \<le> length seq \<and>
         int (card {l. in_window ml ?st ?len l}) = min ml ?len"
    using w mm sub fit window_set [OF pos] window_card [OF pos assms(1)]
    by (simp only: length_write_mask assms(3) simp_thms)
  show ?thesis
    apply (intro conjI)
              apply (rule first [THEN conjunct1])
             apply (rule first [THEN conjunct2, THEN conjunct1])
            apply (rule first [THEN conjunct2, THEN conjunct2, THEN conjunct1])
           apply (rule first [THEN conjunct2, THEN conjunct2, THEN conjunct2, THEN conjunct1])
          apply (rule first [THEN conjunct2, THEN conjunct2, THEN conjunct2, THEN conjunct2, THEN conjunct1])
         apply (rule first [THEN conjunct2, THEN conjunct2, THEN conjunct2, THEN conjunct2, THEN conjunct2, THEN conjunct1])
        apply (rule first [THEN conjunct2, THEN conjunct2, THEN conjunct2, THEN conjunct2, THEN conjunct2, THEN conjunct2])
       apply (rule one)
      apply (rule writer)
    using outputs apply blast
    done
qed

theorem mask_window_exact_witness:
  "write_mask 2 [0,0,4,4,4,4,4,4,0,6,6,6,6] 1 [0,0,4,4,4,4,4,4,0,6,6,6,6] ! 7 = 1 \<and>
   write_mask 2 [0,0,4,4,4,4,4,4,0,6,6,6,6] 1 [0,0,4,4,4,4,4,4,0,6,6,6,6] ! 5 = 4 \<and>
   {l. in_window 2 2 6 l} = {6..<8} \<and>
   int (card {l. in_window 2 2 6 l}) = 2 \<and>
   apply_masks_parallel [[0,0,4,4,4,4,4,4,0,6,6,6,6]] [[2]] [[6]] [[True]] 2 13 =
     [[0,0,4,4,4,4,1,1,0,6,6,6,6]] \<and>
   (\<exists>out q. fast_fast_bbc_mask [[0,0,3,3,3,3,3,3,0,5,5,5,5]] 2 5 1 (\<lambda>k. 1 / 2) 0 = Inr (out, q) \<and>
      out ! 0 ! 7 = 1)"
proof -
  let ?row = "[0,0,4,4,4,4,4,4,0,6,6,6,6] :: int list"
  let ?m = "[[0,0,3,3,3,3,3,3,0,5,5,5,5]] :: tensor2"
  have h: "(1::int) \<le> 2" "1 < length (starts_of ?row)" "length ?row = length ?row"
    by (simp_all add: scenario_table)
  note inst = mask_window_exact [OF h]
  have w7: "in_window 2 2 6 7" and w5: "\<not> in_window 2 2 6 5" by (simp_all add: in_window_def)
  have seqpart: "write_mask 2 ?row 1 ?row ! 7 = 1 \<and> write_mask 2 ?row 1 ?row ! 5 = 4 \<and>
      {l. in_window 2 2 6 l} = {6..<8} \<and> int (card {l. in_window 2 2 6 l}) = 2"
    using inst [THEN conjunct1] inst [THEN conjunct2, THEN conjunct2, THEN conjunct2, THEN conjunct1]
      inst [THEN conjunct2, THEN conjunct2, THEN conjunct2, THEN conjunct2, THEN conjunct2,
        THEN conjunct2, THEN conjunct1] w7 w5
    by (simp add: scenario_table)
  have st: "starts_of ?row ! 1 = 2" "lengths_of ?row ! 1 = 6" by (simp_all add: scenario_table)
  have rhs: "[map (\<lambda>l. if in_window 2 2 6 l then 1 else ?row ! l) [0..<length ?row]] =
      [[0,0,4,4,4,4,1,1,0,6,6,6,6]]"
    by (simp add: in_window_def upt_Suc eval_nat_numeral)
  have lenrow: "length ?row = 13" by simp
  have e1: "apply_masks_parallel [?row] [[starts_of ?row ! 1]] [[lengths_of ?row ! 1]] [[True]] 2
      (length ?row) =
      [map (\<lambda>l. if in_window 2 (starts_of ?row ! 1) (lengths_of ?row ! 1) l then 1
                else ?row ! l) [0..<length ?row]]"
    by (rule inst [THEN conjunct2, THEN conjunct2, THEN conjunct2, THEN conjunct2, THEN conjunct2,
        THEN conjunct2, THEN conjunct2, THEN conjunct1])
  note e2 = e1 [unfolded st rhs]
  have one: "apply_masks_parallel [?row] [[2]] [[6]] [[True]] 2 13 =
      [[0,0,4,4,4,4,1,1,0,6,6,6,6]]"
    using e2 unfolding lenrow .
  have pre: "rectangular ?m \<and> non_negative ?m \<and> 0 < length ?m \<and> shift_values ?m ! 0 = ?row"
    by (simp add: rectangular_def non_negative_def seq_len_def scenario_shift)
  have d: "decision_of ?m 5 1 (\<lambda>k. 1 / 2) 0 0 1" by code_simp
  from inst [THEN conjunct2, THEN conjunct2, THEN conjunct2, THEN conjunct2, THEN conjunct2,
        THEN conjunct2, THEN conjunct2, THEN conjunct2, THEN conjunct2, rule_format, OF pre,
        of 5 1 "\<lambda>k. 1 / 2" 0]
  obtain out q where o: "fast_fast_bbc_mask ?m 2 5 1 (\<lambda>k. 1 / 2) 0 = Inr (out, q)"
    and fr: "\<forall>l<length ?row. out ! 0 ! l =
        (if \<exists>s<length (starts_of ?row). decision_of ?m 5 1 (\<lambda>k. 1 / 2) 0 0 s \<and>
              in_window 2 (starts_of ?row ! s) (lengths_of ?row ! s) l then 1 else ?row ! l)"
    and dj: "decision_of ?m 5 1 (\<lambda>k. 1 / 2) 0 0 1 \<longrightarrow>
        (\<forall>l. in_window 2 (starts_of ?row ! 1) (lengths_of ?row ! 1) l \<longrightarrow> out ! 0 ! l = 1)"
    by blast
  have "out ! 0 ! 7 = 1" using dj d w7 by (simp add: scenario_table)
  then show ?thesis using seqpart one o by blast
qed

subsection \<open>The marker\<close>




lemma marked_frame_nonzero:
  assumes "j < length (starts_of seq)" "valid_mask msl seq ! j"
    and "in_window ml (starts_of seq ! j) (lengths_of seq ! j) l"
  shows "seq ! l \<noteq> 0"
proof -
  have "seq ! l = seq ! (boundaries_of seq ! j)"
    by (rule segment_constant [OF in_window_segment [OF assms(1,3)]])
  moreover have "values_of seq ! j \<noteq> 0" using assms(2) by (simp add: valid_mask_nth [OF assms(1)])
  ultimately show ?thesis by (simp add: values_of_nth [OF assms(1)])
qed

text \<open>
  C2. A segment whose value is 0 or whose length is below \<open>min_segment_length\<close> is not
  among the segments the sequential strategy selects, and its mask decision in the
  batched strategy is false, whatever the draws are. In the output of either strategy
  every frame of such a segment keeps its shifted value, which is not the marker.
\<close>

theorem ineligible_never_masked:
  assumes "rectangular m" "non_negative m" "b < length m"
    and "j < length (starts_of (shift_values m ! b))"
    and "values_of (shift_values m ! b) ! j = 0 \<or> lengths_of (shift_values m ! b) ! j < msl"
  shows "j \<notin> set (selected_of msl p g (shift_values m ! b) (pos + draw_offset msl (shift_values m) b)) \<and>
         \<not> decision_of m msl p g pos b j \<and>
         (\<exists>out q. fast_fast_bbc_mask m ml msl p g pos = Inr (out, q) \<and>
            (\<forall>l. in_segment (boundaries_of (shift_values m ! b)) j l \<longrightarrow>
               shift_values m ! b ! l \<noteq> 1 \<and>
               fst (fast_bbc_mask m ml msl p g pos) ! b ! l = shift_values m ! b ! l \<and>
               out ! b ! l = shift_values m ! b ! l))"
proof -
  let ?row = "shift_values m ! b"
  let ?sel = "selected_of msl p g ?row (pos + draw_offset msl (shift_values m) b)"
  have len: "length ?row = seq_len m" by (rule shifted_row_length [OF assms(1,3)])
  have inv: "\<not> valid_mask msl ?row ! j"
    using assms(5) by (auto simp: valid_mask_nth [OF assms(4)])
  have notsel: "j \<notin> set ?sel" using selected_of_valid(2) inv by blast
  have notdec: "\<not> decision_of m msl p g pos b j"
    using inv by (simp add: decision_of_real [OF assms(1,2,3,4)])
  have "Suc j < length (boundaries_of ?row)" using assms(4) by (simp add: length_starts_of)
  then have "boundaries_of ?row ! j < length ?row"
    using boundaries_nth_less [of j ?row] boundaries_nth_le [of "Suc j" ?row] by simp
  then have L: "0 < seq_len m" using len by simp
  then have ne: "m \<noteq> []" by (auto simp: seq_len_def)
  obtain out where o: "fast_fast_bbc_mask m ml msl p g pos = Inr (out, pos + length m * max_segments_of m)"
    using fast_fast_bbc_mask_returns [OF assms(1) ne L, of ml msl p g pos] by blast
  have frames: "shift_values m ! b ! l \<noteq> 1 \<and>
               fst (fast_bbc_mask m ml msl p g pos) ! b ! l = ?row ! l \<and>
               out ! b ! l = ?row ! l" if seg: "in_segment (boundaries_of ?row) j l" for l
  proof -
    have l: "l < seq_len m" using in_segment_frame [OF seg] len by simp
    have own: "k = j" if "k < length (starts_of ?row)"
      "in_window ml (starts_of ?row ! k) (lengths_of ?row ! k) l" for k
      using in_segment_unique [OF boundaries_sorted in_window_segment [OF that] seg] .
    have noA: "\<not> (\<exists>k\<in>set ?sel. in_window ml (starts_of ?row ! k) (lengths_of ?row ! k) l)"
      using own selected_of_valid(1) notsel by blast
    have noB: "\<not> (\<exists>s<length (starts_of ?row). valid_mask msl ?row ! s \<and>
                   g (pos + b * max_segments_of m + s) < p \<and>
                   in_window ml (starts_of ?row ! s) (lengths_of ?row ! s) l)"
      using own inv by blast
    have "l < length (m ! b)" using l assms(1,3) by (simp add: rectangular_nth)
    then have "shift_values m ! b ! l \<noteq> 1" by (rule shifted_not_marker [OF assms(2,3)])
    moreover have "fst (fast_bbc_mask m ml msl p g pos) ! b ! l = ?row ! l"
      unfolding fast_bbc_mask_frame(1) [OF assms(1,3) l]
      using noA by (rule if_not_P)
    moreover have "out ! b ! l = ?row ! l"
      unfolding fast_fast_bbc_mask_frame(1) [OF assms(1,3) l o]
        batched_marks_iff [OF assms(1,2,3) L]
      using noB by (rule if_not_P)
    ultimately show ?thesis by blast
  qed
  show ?thesis using notsel notdec o frames by blast
qed

theorem ineligible_never_masked_witness:
  "3 \<notin> set (selected_of 5 1 (\<lambda>k. 1 / 2) (shift_values [[0,0,3,3,3,3,3,3,0,5,5,5,5]] ! 0)
            (0 + draw_offset 5 (shift_values [[0,0,3,3,3,3,3,3,0,5,5,5,5]]) 0)) \<and>
   \<not> decision_of [[0,0,3,3,3,3,3,3,0,5,5,5,5]] 5 1 (\<lambda>k. 1 / 2) 0 0 3"
proof -
  let ?m = "[[0,0,3,3,3,3,3,3,0,5,5,5,5]] :: tensor2"
  have h: "rectangular ?m" "non_negative ?m" "0 < length ?m"
    by (simp_all add: rectangular_def non_negative_def seq_len_def)
  have r: "shift_values ?m ! 0 = [0,0,4,4,4,4,4,4,0,6,6,6,6]" by (simp add: scenario_shift)
  have j: "3 < length (starts_of (shift_values ?m ! 0))" by (simp add: r scenario_table)
  have e: "values_of (shift_values ?m ! 0) ! 3 = 0 \<or> lengths_of (shift_values ?m ! 0) ! 3 < 5"
    by (simp add: r scenario_table)
  show ?thesis
    using ineligible_never_masked [OF h j e, of 1 "\<lambda>k. 1 / 2" 0 2] by blast
qed

section \<open>Outputs that equal the shifted tensor\<close>

lemma tensor_eqI:
  assumes "length out = length m" "\<And>b. b < length m \<Longrightarrow> length (out ! b) = length (m ! b)"
    and "\<And>b l. b < length m \<Longrightarrow> l < length (m ! b) \<Longrightarrow> out ! b ! l = m ! b ! l"
  shows "out = (m :: tensor2)"
  using assms by (intro nth_equalityI) simp_all

lemma fast_bbc_mask_row_length:
  "b < length m \<Longrightarrow>
   length (fst (fast_bbc_mask m ml msl p g pos) ! b) = length (shift_values m ! b)"
  by (simp add: fast_bbc_mask_row)

lemma fast_bbc_mask_unchanged:
  assumes "rectangular m"
    and "\<And>b l j. b < length m \<Longrightarrow> l < seq_len m \<Longrightarrow>
           j \<in> set (selected_of msl p g (shift_values m ! b) (pos + draw_offset msl (shift_values m) b)) \<Longrightarrow>
           \<not> in_window ml (starts_of (shift_values m ! b) ! j) (lengths_of (shift_values m ! b) ! j) l"
  shows "fst (fast_bbc_mask m ml msl p g pos) = shift_values m"
proof (rule tensor_eqI)
  show "length (fst (fast_bbc_mask m ml msl p g pos)) = length (shift_values m)"
    by (simp add: fast_bbc_mask_length length_shift_values)
next
  fix b assume "b < length (shift_values m)"
  then have b: "b < length m" by (simp add: length_shift_values)
  show "length (fst (fast_bbc_mask m ml msl p g pos) ! b) = length (shift_values m ! b)"
    by (rule fast_bbc_mask_row_length [OF b])
  fix l assume "l < length (shift_values m ! b)"
  then have l: "l < seq_len m" by (simp add: shifted_row_length [OF assms(1) b])
  have "\<not> (\<exists>j\<in>set (selected_of msl p g (shift_values m ! b) (pos + draw_offset msl (shift_values m) b)).
           in_window ml (starts_of (shift_values m ! b) ! j) (lengths_of (shift_values m ! b) ! j) l)"
    using assms(2) [OF b l] by blast
  then show "fst (fast_bbc_mask m ml msl p g pos) ! b ! l = shift_values m ! b ! l"
    unfolding fast_bbc_mask_frame(1) [OF assms(1) b l] by (rule if_not_P)
qed

lemma fast_fast_bbc_mask_unchanged:
  assumes "rectangular m" "m \<noteq> []" "0 < seq_len m"
    and "\<And>b l s. b < length m \<Longrightarrow> l < seq_len m \<Longrightarrow> s < max_segments_of m \<Longrightarrow>
           decision_of m msl p g pos b s \<Longrightarrow>
           \<not> in_window ml (segment_start (segment_ids_row (shift_values m ! b)) s (seq_len m))
                (segment_length (segment_ids_row (shift_values m ! b)) s) l"
  shows "fast_fast_bbc_mask m ml msl p g pos =
         Inr (shift_values m, pos + length m * max_segments_of m)"
proof -
  obtain out where o: "fast_fast_bbc_mask m ml msl p g pos =
      Inr (out, pos + length m * max_segments_of m)"
    using fast_fast_bbc_mask_returns [OF assms(1,2,3), of ml msl p g pos] by blast
  have "out = shift_values m"
  proof (rule tensor_eqI)
    show "length out = length (shift_values m)"
      using fast_fast_bbc_mask_frame(2) [OF assms(1) _ assms(3) o, of 0] assms(2)
      by (simp add: length_shift_values)
  next
    fix b assume "b < length (shift_values m)"
    then have b: "b < length m" by (simp add: length_shift_values)
    show "length (out ! b) = length (shift_values m ! b)"
      by (simp add: fast_fast_bbc_mask_frame(3) [OF assms(1) b assms(3) o]
          shifted_row_length [OF assms(1) b])
    fix l assume "l < length (shift_values m ! b)"
    then have l: "l < seq_len m" by (simp add: shifted_row_length [OF assms(1) b])
    have "\<not> (\<exists>s<max_segments_of m. decision_of m msl p g pos b s \<and>
               in_window ml (segment_start (segment_ids_row (shift_values m ! b)) s (seq_len m))
                 (segment_length (segment_ids_row (shift_values m ! b)) s) l)"
      using assms(4) [OF b l] by blast
    then show "out ! b ! l = shift_values m ! b ! l"
      unfolding fast_fast_bbc_mask_frame(1) [OF assms(1) b l o] by (rule if_not_P)
  qed
  then show ?thesis using o by simp
qed

text \<open>With \<open>mask_prob = 0\<close> no draw of \<open>[0, 1)\<close> selects anything.\<close>

lemma mask_prob_zero_sequential:
  assumes "rectangular m" "\<forall>k. 0 \<le> g k"
  shows "fst (fast_bbc_mask m ml msl 0 g pos) = shift_values m"
proof (rule fast_bbc_mask_unchanged [OF assms(1)])
  fix b l j
  assume "j \<in> set (selected_of msl 0 g (shift_values m ! b) (pos + draw_offset msl (shift_values m) b))"
  then obtain k where "g (pos + draw_offset msl (shift_values m) b + k) < 0"
    unfolding selected_of_iff by blast
  then have False using assms(2) by (simp add: not_less [symmetric])
  then show "\<not> in_window ml (starts_of (shift_values m ! b) ! j) (lengths_of (shift_values m ! b) ! j) l" ..
qed

lemma mask_prob_zero_batched:
  assumes "rectangular m" "m \<noteq> []" "0 < seq_len m" "\<forall>k. 0 \<le> g k"
  shows "fast_fast_bbc_mask m ml msl 0 g pos =
         Inr (shift_values m, pos + length m * max_segments_of m)"
proof (rule fast_fast_bbc_mask_unchanged [OF assms(1,2,3)])
  fix b l s
  assume "decision_of m msl 0 g pos b s"
  then have "g (pos + b * max_segments_of m + s) < 0" by (simp add: decision_of_def Let_def)
  then have False using assms(4) by (simp add: not_less [symmetric])
  then show "\<not> in_window ml (segment_start (segment_ids_row (shift_values m ! b)) s (seq_len m))
                (segment_length (segment_ids_row (shift_values m ! b)) s) l" ..
qed




section \<open>Configuration values are not validated\<close>




section \<open>Tensors without frames\<close>

lemma fast_bbc_mask_no_frames: "fast_bbc_mask [[]] ml msl p g pos = ([[]], pos)"
proof -
  have bd: "boundaries_of [] = []"
    by (simp add: boundaries_of_def where_true_def diff_mask_def pad_row_def upt_Suc)
  have "mask_sample ml msl p g [] pos = ([], pos)" by (simp add: mask_sample_def bd)
  then show ?thesis by (simp add: fast_bbc_mask_def shift_values_def)
qed

lemma fast_fast_bbc_mask_no_frames: "fast_fast_bbc_mask [[]] ml msl p g pos = Inl EmptyReduction"
  by (rule fast_fast_bbc_mask_empty) (simp add: rectangular_def seq_len_def)

text \<open>
  C9 at the tensor \<open>[[]]\<close> (one row, no frame) with \<open>mask_prob = 0\<close>: the sequential
  strategy returns the shifted input, the batched strategy raises.
\<close>

theorem mask_prob_zero_no_frames:
  "fst (fast_bbc_mask [[]] ml msl 0 g pos) = shift_values [[]] \<and>
   fast_fast_bbc_mask [[]] ml msl 0 g pos = Inl EmptyReduction"
  by (simp add: fast_bbc_mask_no_frames fast_fast_bbc_mask_no_frames shift_values_def)

text \<open>
  C10 at the tensor \<open>[[]]\<close>: the sequential strategy returns a tensor of the same
  shape, the batched strategy returns none.
\<close>

theorem output_shape_no_frames:
  "length (fst (fast_bbc_mask [[]] ml msl p g pos)) = batch_size [[]] \<and>
   length (fst (fast_bbc_mask [[]] ml msl p g pos) ! 0) = seq_len [[]] \<and>
   fast_fast_bbc_mask [[]] ml msl p g pos = Inl EmptyReduction"
  by (simp add: fast_bbc_mask_no_frames fast_fast_bbc_mask_no_frames batch_size_def seq_len_def)

text \<open>
  C8 at the tensor \<open>[[]]\<close>: the row has fewer than two boundaries and no eligible
  segment. The sequential strategy skips it and returns the shifted tensor unchanged;
  the batched strategy raises.
\<close>

theorem degenerate_no_frames:
  "length (boundaries_of (shift_values [[]] ! 0)) < 2 \<and>
   \<not> list_ex (\<lambda>v. v) (valid_mask msl (shift_values [[]] ! 0)) \<and>
   fast_bbc_mask [[]] ml msl p g pos = (shift_values [[]], pos) \<and>
   fast_fast_bbc_mask [[]] ml msl p g pos = Inl EmptyReduction"
proof -
  have bd: "boundaries_of [] = []"
    by (simp add: boundaries_of_def where_true_def diff_mask_def pad_row_def upt_Suc)
  have vm: "valid_mask msl [] = []" by (rule valid_mask_no_segments) (simp add: bd)
  show ?thesis
    by (simp add: fast_bbc_mask_no_frames fast_fast_bbc_mask_no_frames shift_values_def bd vm)
qed

section \<open>Equivalence of the two strategies\<close>

lemma selected_of_synchronized:
  assumes "synchronized m msl gA posA gB posB" "b < length m"
  shows "j \<in> set (selected_of msl p gA (shift_values m ! b) (posA + draw_offset msl (shift_values m) b)) =
         (j < length (starts_of (shift_values m ! b)) \<and> valid_mask msl (shift_values m ! b) ! j \<and>
          gB (posB + b * max_segments_of m + j) < p)"
  (is "?lhs = ?rhs")
proof -
  let ?row = "shift_values m ! b"
  let ?vi = "where_true (valid_mask msl ?row)"
  have sync: "gA (posA + draw_offset msl (shift_values m) b + k) =
      gB (posB + b * max_segments_of m + ?vi ! k)" if "k < draws_used msl ?row" for k
    using assms that by (simp add: synchronized_def)
  have vi: "i \<in> set ?vi = (i < length (starts_of ?row) \<and> valid_mask msl ?row ! i)" for i
    by (simp add: where_true_set length_valid_mask)
  show ?thesis
  proof
    assume ?lhs
    then obtain k where k: "k < draws_used msl ?row" "?vi ! k = j"
      "gA (posA + draw_offset msl (shift_values m) b + k) < p"
      unfolding selected_of_iff by blast
    have "j \<in> set ?vi" using k(1,2) by (auto simp: draws_used_def)
    moreover have "gB (posB + b * max_segments_of m + j) < p"
      using k(3) sync [OF k(1)] k(2) by simp
    ultimately show ?rhs using vi by blast
  next
    assume ?rhs
    then have "j \<in> set ?vi" using vi by blast
    then obtain k where k: "k < length ?vi" "?vi ! k = j" by (auto simp: in_set_conv_nth)
    then have k': "k < draws_used msl ?row" by (simp add: draws_used_def)
    have "gA (posA + draw_offset msl (shift_values m) b + k) < p"
      using \<open>?rhs\<close> sync [OF k'] k(2) by simp
    then show ?lhs unfolding selected_of_iff using k' k(2) by blast
  qed
qed

lemma strategies_agree:
  assumes "rectangular m" "non_negative m" "m \<noteq> []" "0 < seq_len m"
    and "synchronized m msl gA posA gB posB"
  shows "fast_fast_bbc_mask m ml msl p gB posB =
         Inr (fst (fast_bbc_mask m ml msl p gA posA), posB + length m * max_segments_of m)"
proof -
  obtain out where o: "fast_fast_bbc_mask m ml msl p gB posB =
      Inr (out, posB + length m * max_segments_of m)"
    using fast_fast_bbc_mask_returns [OF assms(1,3,4), of ml msl p gB posB] by blast
  let ?A = "fst (fast_bbc_mask m ml msl p gA posA)"
  have b0: "0 < length m" using assms(3) by simp
  have "out = ?A"
  proof (rule tensor_eqI)
    show "length out = length ?A"
      using fast_fast_bbc_mask_frame(2) [OF assms(1) b0 assms(4) o]
      by (simp add: fast_bbc_mask_length)
  next
    fix b assume "b < length ?A"
    then have b: "b < length m" by (simp add: fast_bbc_mask_length)
    have lenA: "length (?A ! b) = seq_len m"
      by (simp add: fast_bbc_mask_row_length [OF b] shifted_row_length [OF assms(1) b])
    show "length (out ! b) = length (?A ! b)"
      by (simp add: fast_fast_bbc_mask_frame(3) [OF assms(1) b assms(4) o] lenA)
    fix l assume "l < length (?A ! b)"
    then have l: "l < seq_len m" by (simp add: lenA)
    let ?row = "shift_values m ! b"
    have "(\<exists>j\<in>set (selected_of msl p gA ?row (posA + draw_offset msl (shift_values m) b)).
             in_window ml (starts_of ?row ! j) (lengths_of ?row ! j) l) =
          (\<exists>s<length (starts_of ?row). valid_mask msl ?row ! s \<and>
             gB (posB + b * max_segments_of m + s) < p \<and>
             in_window ml (starts_of ?row ! s) (lengths_of ?row ! s) l)"
      using selected_of_synchronized [OF assms(5) b, of _ p] by blast
    then show "out ! b ! l = ?A ! b ! l"
      unfolding fast_fast_bbc_mask_frame(1) [OF assms(1) b l o]
        fast_bbc_mask_frame(1) [OF assms(1) b l, of ml msl p gA posA]
        batched_marks_iff [OF assms(1,2) b assms(4)]
      by (simp only:)
  qed
  then show ?thesis using o by simp
qed

lemma segment_tables_agree:
  assumes "rectangular m" "non_negative m" "0 < seq_len m"
  shows "\<exists>sts lens vals.
           compute_segment_info_parallel (shift_values m) (map segment_ids_row (shift_values m))
             (max_segments_of m) (seq_len m) = Inr (sts, lens, vals) \<and>
           (\<forall>b<length m. \<forall>j<length (starts_of (shift_values m ! b)).
              j < max_segments_of m \<and>
              sts ! b ! j = starts_of (shift_values m ! b) ! j \<and>
              lens ! b ! j = lengths_of (shift_values m ! b) ! j \<and>
              vals ! b ! j = values_of (shift_values m ! b) ! j)"
proof -
  let ?ids = "map segment_ids_row (shift_values m)"
  obtain sts lens vals where
    tab: "compute_segment_info_parallel (shift_values m) ?ids (max_segments_of m) (seq_len m) =
          Inr (sts, lens, vals)"
    using assms(3) by (auto simp: compute_segment_info_parallel_def)
  have "j < max_segments_of m \<and>
        sts ! b ! j = starts_of (shift_values m ! b) ! j \<and>
        lens ! b ! j = lengths_of (shift_values m ! b) ! j \<and>
        vals ! b ! j = values_of (shift_values m ! b) ! j"
    if b: "b < length m" and j: "j < length (starts_of (shift_values m ! b))" for b j
  proof -
    let ?row = "shift_values m ! b"
    have nn: "sentinel_free ?row" by (rule non_negative_row [OF assms(2) b])
    have len: "seq_len m = length ?row" using shifted_row_length [OF assms(1) b] by simp
    have S: "j < max_segments_of m" by (rule real_segment_slot [OF assms(2) b j])
    have b': "b < length (shift_values m)" using b by (simp add: length_shift_values)
    have idb: "?ids ! b = segment_ids_row ?row" using b' by simp
    have "sts ! b ! j = starts_of ?row ! j"
      using compute_segment_info_parallel_nth(1) [OF tab _ b' S]
      by (simp add: idb len segment_start_real [OF nn j])
    moreover have "lens ! b ! j = lengths_of ?row ! j"
      using compute_segment_info_parallel_nth(2) [OF tab _ b' S]
      by (simp add: idb segment_length_real [OF nn j])
    moreover have "vals ! b ! j = values_of ?row ! j"
      using compute_segment_info_parallel_nth(3) [OF tab _ b' S]
      by (simp add: idb len segment_value_real [OF nn j])
    ultimately show ?thesis using S by blast
  qed
  then show ?thesis using tab by blast
qed

text \<open>
  C1, as the code has it. For a tensor without negative entries that has at least one row
  and one frame, the table of the batched strategy holds, for every segment of every
  sample, the start, length and value the sequential strategy computes. When the draws
  are synchronized, that is when the draw the sequential strategy takes for the
  \<open>k\<close>-th eligible segment of a sample is the draw the batched strategy takes for the slot
  of that segment, the batched strategy returns the output of the sequential one.
\<close>

theorem strategies_equivalent:
  assumes "rectangular m" "non_negative m" "m \<noteq> []" "0 < seq_len m"
  shows "(\<exists>sts lens vals.
           compute_segment_info_parallel (shift_values m) (map segment_ids_row (shift_values m))
             (max_segments_of m) (seq_len m) = Inr (sts, lens, vals) \<and>
           (\<forall>b<length m. \<forall>j<length (starts_of (shift_values m ! b)).
              j < max_segments_of m \<and>
              sts ! b ! j = starts_of (shift_values m ! b) ! j \<and>
              lens ! b ! j = lengths_of (shift_values m ! b) ! j \<and>
              vals ! b ! j = values_of (shift_values m ! b) ! j)) \<and>
         (synchronized m msl gA posA gB posB \<longrightarrow>
            fast_fast_bbc_mask m ml msl p gB posB =
              Inr (fst (fast_bbc_mask m ml msl p gA posA), posB + length m * max_segments_of m))"
  using segment_tables_agree [OF assms(1,2,4)] strategies_agree [OF assms] by blast

text \<open>
  Two different streams that are synchronized on the row \<open>[0,0,3,3,3,3,3]\<close>: the
  sequential strategy takes its first draw, the batched strategy its second draw, for
  the eligible segment.
\<close>

theorem strategies_equivalent_witness:
  "fast_fast_bbc_mask [[0,0,3,3,3,3,3]] 2 5 (1 / 2) (\<lambda>k. if k = 1 then 1 / 10 else 9 / 10) 0 =
     Inr (fst (fast_bbc_mask [[0,0,3,3,3,3,3]] 2 5 (1 / 2) (\<lambda>k. if k = 0 then 1 / 10 else 9 / 10) 0),
          0 + length [[0,0,3,3,3,3,3 :: int]] * max_segments_of [[0,0,3,3,3,3,3]]) \<and>
   fst (fast_bbc_mask [[0,0,3,3,3,3,3]] 2 5 (1 / 2) (\<lambda>k. if k = 0 then 1 / 10 else 9 / 10) 0) =
     [[0,0,4,4,4,1,1]]"
proof -
  let ?m = "[[0,0,3,3,3,3,3]] :: tensor2"
  let ?gA = "\<lambda>k::nat. if k = 0 then 1 / 10 else 9 / 10 :: real"
  let ?gB = "\<lambda>k::nat. if k = 1 then 1 / 10 else 9 / 10 :: real"
  have h: "rectangular ?m" "non_negative ?m" "?m \<noteq> []" "0 < seq_len ?m"
    by (simp_all add: rectangular_def non_negative_def seq_len_def)
  have du: "draws_used 5 (shift_values ?m ! 0) = 1" by code_simp
  have vi: "where_true (valid_mask 5 (shift_values ?m ! 0)) ! 0 = 1" by code_simp
  have off: "draw_offset 5 (shift_values ?m) 0 = 0" by code_simp
  have S: "max_segments_of ?m = 2" by code_simp
  have s: "synchronized ?m 5 ?gA 0 ?gB 0"
    by (simp add: synchronized_def du vi off S)
  have out: "fst (fast_bbc_mask ?m 2 5 (1 / 2) ?gA 0) = [[0,0,4,4,4,1,1]]" by code_simp
  show ?thesis
    using strategies_equivalent [OF h, of 5 ?gA 0 ?gB 0 2 "1 / 2"] s out by blast
qed

text \<open>
  One row with two segments, the second eligible, and the draws \<open>0.9, 0.1\<close>, one for
  each segment in order. The sequential strategy takes the first draw for its only
  eligible segment and masks nothing; the batched strategy takes the second draw for
  that segment and masks its last two frames.
\<close>

theorem strategies_counterexample:
  "fast_bbc_mask [[0,0,3,3,3,3,3]] 2 5 (1 / 2) (\<lambda>k. if k = 0 then 9 / 10 else 1 / 10) 0 =
     ([[0,0,4,4,4,4,4]], 1) \<and>
   fast_fast_bbc_mask [[0,0,3,3,3,3,3]] 2 5 (1 / 2) (\<lambda>k. if k = 0 then 9 / 10 else 1 / 10) 0 =
     Inr ([[0,0,4,4,4,1,1]], 2)"
  by code_simp

section \<open>Tensors with at least one frame\<close>

text \<open>
  On a tensor with at least one row and one frame the batched strategy returns, and
  the properties below hold for both strategies.
\<close>

lemma mask_prob_zero_unchanged:
  assumes "rectangular m" "m \<noteq> []" "0 < seq_len m" "\<forall>k. 0 \<le> g k"
  shows "fst (fast_bbc_mask m ml msl 0 g pos) = shift_values m \<and>
         fast_fast_bbc_mask m ml msl 0 g pos =
           Inr (shift_values m, pos + length m * max_segments_of m)"
  using mask_prob_zero_sequential [OF assms(1,4)] mask_prob_zero_batched [OF assms] by blast

lemma output_frames_sequential:
  assumes "rectangular m" "b < length m" "l < seq_len m"
  shows "(fst (fast_bbc_mask m ml msl p g pos) ! b ! l = shift_values m ! b ! l \<or>
          fst (fast_bbc_mask m ml msl p g pos) ! b ! l = 1) \<and>
         (fst (fast_bbc_mask m ml msl p g pos) ! b ! l = 0) = (m ! b ! l = 0)"
proof -
  let ?row = "shift_values m ! b"
  let ?sel = "selected_of msl p g ?row (pos + draw_offset msl (shift_values m) b)"
  define marked where
    "marked = (\<exists>j\<in>set ?sel. in_window ml (starts_of ?row ! j) (lengths_of ?row ! j) l)"
  have fr: "fst (fast_bbc_mask m ml msl p g pos) ! b ! l = (if marked then 1 else ?row ! l)"
    unfolding marked_def by (rule fast_bbc_mask_frame(1) [OF assms])
  have z: "(?row ! l = 0) = (m ! b ! l = 0)"
    by (simp add: shifted_frame [OF assms] shift_value_zero)
  have nz: "?row ! l \<noteq> 0" if marked
  proof -
    from that obtain j where j: "j \<in> set ?sel"
      "in_window ml (starts_of ?row ! j) (lengths_of ?row ! j) l"
      unfolding marked_def by blast
    show ?thesis by (rule marked_frame_nonzero [OF selected_of_valid [OF j(1)] j(2)])
  qed
  show ?thesis using fr z nz by (cases marked) simp_all
qed

lemma output_frames_batched:
  assumes "rectangular m" "non_negative m" "b < length m" "l < seq_len m"
  shows "\<exists>out q. fast_fast_bbc_mask m ml msl p g pos = Inr (out, q) \<and>
           length out = length m \<and> length (out ! b) = seq_len m \<and>
           (out ! b ! l = shift_values m ! b ! l \<or> out ! b ! l = 1) \<and>
           (out ! b ! l = 0) = (m ! b ! l = 0)"
proof -
  let ?row = "shift_values m ! b"
  define marked where "marked = (\<exists>s<length (starts_of ?row). valid_mask msl ?row ! s \<and>
      g (pos + b * max_segments_of m + s) < p \<and>
      in_window ml (starts_of ?row ! s) (lengths_of ?row ! s) l)"
  have L: "0 < seq_len m" using assms(4) by simp
  obtain out q where o: "fast_fast_bbc_mask m ml msl p g pos = Inr (out, q)"
    using fast_fast_bbc_mask_total [OF assms(1,3,4)] by blast
  have fr: "out ! b ! l = (if marked then 1 else ?row ! l)"
    unfolding fast_fast_bbc_mask_frame(1) [OF assms(1,3,4) o]
      batched_marks_iff [OF assms(1,2,3) L] marked_def ..
  have z: "(?row ! l = 0) = (m ! b ! l = 0)"
    by (simp add: shifted_frame [OF assms(1,3,4)] shift_value_zero)
  have nz: "?row ! l \<noteq> 0" if marked
  proof -
    from that obtain s where s: "s < length (starts_of ?row)" "valid_mask msl ?row ! s"
      "in_window ml (starts_of ?row ! s) (lengths_of ?row ! s) l"
      unfolding marked_def by blast
    show ?thesis by (rule marked_frame_nonzero [OF s])
  qed
  have frames: "(out ! b ! l = ?row ! l \<or> out ! b ! l = 1) \<and> (out ! b ! l = 0) = (m ! b ! l = 0)"
    using fr z nz by (cases marked) simp_all
  show ?thesis
    using o frames fast_fast_bbc_mask_frame(2,3) [OF assms(1,3,4) o] by blast
qed

text \<open>A batch in which no segment is eligible.\<close>

lemma no_eligible_sequential:
  assumes "rectangular m"
    and "\<forall>b<length m. \<not> list_ex (\<lambda>v. v) (valid_mask msl (shift_values m ! b))"
  shows "fst (fast_bbc_mask m ml msl p g pos) = shift_values m"
proof (rule fast_bbc_mask_unchanged [OF assms(1)])
  fix b l j
  assume b: "b < length m"
    and "j \<in> set (selected_of msl p g (shift_values m ! b) (pos + draw_offset msl (shift_values m) b))"
  then have "j \<in> set (where_true (valid_mask msl (shift_values m ! b)))"
    using selected_segments_subset by (auto simp: selected_of_def)
  then have False using where_true_empty assms(2) b by fastforce
  then show "\<not> in_window ml (starts_of (shift_values m ! b) ! j) (lengths_of (shift_values m ! b) ! j) l" ..
qed

lemma no_eligible_batched:
  assumes "rectangular m" "non_negative m" "m \<noteq> []" "0 < seq_len m"
    and "\<forall>b<length m. \<not> list_ex (\<lambda>v. v) (valid_mask msl (shift_values m ! b))"
  shows "fast_fast_bbc_mask m ml msl p g pos =
         Inr (shift_values m, pos + length m * max_segments_of m)"
proof (rule fast_fast_bbc_mask_unchanged [OF assms(1,3,4)])
  fix b l s
  assume b: "b < length m" and d: "decision_of m msl p g pos b s"
  let ?row = "shift_values m ! b"
  have nn: "sentinel_free ?row" by (rule non_negative_row [OF assms(2) b])
  have len: "seq_len m = length ?row" using shifted_row_length [OF assms(1) b] by simp
  have ne: "?row \<noteq> []" using len assms(4) by auto
  have "\<not> s < length (starts_of ?row)"
  proof
    assume s: "s < length (starts_of ?row)"
    then have "valid_mask msl ?row ! s" using d decision_of_real [OF assms(1,2) b s] by blast
    moreover have "valid_mask msl ?row ! s \<in> set (valid_mask msl ?row)"
      using s by (intro nth_mem) (simp add: length_valid_mask)
    ultimately have "list_ex (\<lambda>v. v) (valid_mask msl ?row)" unfolding list_ex_iff by blast
    then show False using assms(5) b by blast
  qed
  then show "\<not> in_window ml (segment_start (segment_ids_row ?row) s (seq_len m))
                (segment_length (segment_ids_row ?row) s) l"
    unfolding len by (rule padding_window_empty [OF nn _ ne])
qed

text \<open>A sample that is one uniform run has one segment.\<close>

lemma uniform_run_boundaries:
  assumes "v \<noteq> - 1" "0 < n"
  shows "boundaries_of (replicate n v) = [0, n]"
proof (rule strict_sorted_equal)
  show "sorted_wrt (<) [0, n]" using assms(2) by simp
  show "sorted_wrt (<) (boundaries_of (replicate n v))" by (rule boundaries_sorted)
  show "set (boundaries_of (replicate n v)) = set [0, n]"
  proof -
    have "diff_mask (replicate n v) ! i = (i = 0 \<or> i = n)" if "i \<le> n" for i
      using that assms by (auto simp: diff_mask_nth)
    then show ?thesis by (auto simp: boundaries_member)
  qed
qed

lemma uniform_run_table:
  assumes "v \<noteq> - 1" "0 < n"
  shows "starts_of (replicate n v) = [0]" and "lengths_of (replicate n v) = [int n]"
    and "values_of (replicate n v) = [v]"
    and "valid_mask msl (replicate n v) = [v \<noteq> 0 \<and> msl \<le> int n]"
  using assms(2)
  by (simp_all add: starts_of_def ends_of_def lengths_of_def values_of_def valid_mask_def
      uniform_run_boundaries [OF assms])

lemma uniform_run_not_selected:
  assumes "v \<noteq> - 1" "0 < n" "v = 0 \<or> int n < msl"
  shows "selected_of msl p g (replicate n v) pos = []"
  using assms(3)
  by (auto simp: selected_of_def draws_used_def uniform_run_table(4) [OF assms(1,2)]
      where_true_def selected_segments_def torch_rand_def upt_Suc)

end
